theory Spec2Isabelle
  imports Main "HOL-Library.Word" "HOL-Library.AList"
begin

section \<open>Data model\<close>

text \<open>
  The backup service of \<^verbatim>\<open>app.py\<close>. Python dictionaries with a fixed key set become
  records, \<^verbatim>\<open>Optional\<close> values and keys read with \<^verbatim>\<open>.get\<close> become options, Python
  integers are \<^typ>\<open>int\<close>, loop counters that are never negative are \<^typ>\<open>nat\<close>,
  \<^verbatim>\<open>bytes\<close> is a list of 8-bit words, and \<^verbatim>\<open>str\<close> is \<^typ>\<open>string\<close>.
\<close>

type_synonym byte = "8 word"
type_synonym bytes = "byte list"

text \<open>
  One entry of the provider's listing. \<^verbatim>\<open>size\<close> is read with
  \<^verbatim>\<open>int(file.get('size', 0))\<close>: the field holds the parsed number, or nothing when the
  provider sent no size. \<^verbatim>\<open>canDownload\<close> is read with
  \<^verbatim>\<open>file.get('capabilities', {}).get('canDownload', True)\<close>: nothing when either key is
  missing.
\<close>

record file_rec =
  file_id :: string
  name :: string
  mimeType :: string
  declared_size :: "int option"
  canDownload :: "bool option"

text \<open>
  Exceptions (subclasses of \<^verbatim>\<open>Exception\<close>): the provider's \<^verbatim>\<open>HttpError\<close> with
  \<^verbatim>\<open>resp.status\<close> and its rendering by \<^verbatim>\<open>str\<close>, and every other exception with its
  rendering.
\<close>

datatype exn = HttpError nat string | Exception string

fun str :: "exn \<Rightarrow> string" where
  "str (HttpError s m) = m"
| "str (Exception m) = m"

section \<open>Filename sanitizer\<close>

definition google_apps_types :: "string list" where
  "google_apps_types =
    [''application/vnd.google-apps.document'',
     ''application/vnd.google-apps.spreadsheet'',
     ''application/vnd.google-apps.presentation'',
     ''application/vnd.google-apps.drawing'']"

definition is_google_apps_file :: "string \<Rightarrow> bool" where
  "is_google_apps_file mime_type = (mime_type \<in> set google_apps_types)"

definition formats :: "(string \<times> string) list" where
  "formats =
    [(''application/vnd.google-apps.document'',
      ''application/vnd.openxmlformats-officedocument.wordprocessingml.document''),
     (''application/vnd.google-apps.spreadsheet'',
      ''application/vnd.openxmlformats-officedocument.spreadsheetml.sheet''),
     (''application/vnd.google-apps.presentation'',
      ''application/vnd.openxmlformats-officedocument.presentationml.presentation''),
     (''application/vnd.google-apps.drawing'', ''application/pdf'')]"

definition get_export_format :: "string \<Rightarrow> string" where
  "get_export_format mime_type =
    (case map_of formats mime_type of Some v \<Rightarrow> v | None \<Rightarrow> ''application/pdf'')"

definition extensions :: "(string \<times> string) list" where
  "extensions =
    [(''application/vnd.openxmlformats-officedocument.wordprocessingml.document'', ''docx''),
     (''application/vnd.openxmlformats-officedocument.spreadsheetml.sheet'', ''xlsx''),
     (''application/vnd.openxmlformats-officedocument.presentationml.presentation'', ''pptx''),
     (''application/pdf'', ''pdf'')]"

definition get_file_extension :: "string \<Rightarrow> string" where
  "get_file_extension mime_type =
    (case map_of extensions mime_type of Some v \<Rightarrow> v | None \<Rightarrow> ''pdf'')"

text \<open>The characters \<^verbatim>\<open><>:"/\|?*\<close>; the double quote and the backslash by their codes.\<close>

definition invalid_chars :: string where
  "invalid_chars =
    [CHR ''<'', CHR ''>'', CHR '':'', CHR 0x22, CHR ''/'', CHR 0x5C, CHR ''|'', CHR ''?'',
     CHR ''*'']"

text \<open>\<^verbatim>\<open>name.replace(char, '_')\<close> for a pattern of one character.\<close>

definition replace_char :: "char \<Rightarrow> char \<Rightarrow> string \<Rightarrow> string" where
  "replace_char old new s = map (\<lambda>c. if c = old then new else c) s"

text \<open>
  \<^verbatim>\<open>str.lower\<close>, on the letters A to Z. Python also lowers letters outside ASCII; none of
  them becomes a character of \<^verbatim>\<open>.docx\<close>, \<^verbatim>\<open>.xlsx\<close>, \<^verbatim>\<open>.pptx\<close> or \<^verbatim>\<open>.pdf\<close>, so the
  suffix test below reads the same.
\<close>

definition lower_char :: "char \<Rightarrow> char" where
  "lower_char c =
    (case map_of (zip ''ABCDEFGHIJKLMNOPQRSTUVWXYZ'' ''abcdefghijklmnopqrstuvwxyz'') c of
       Some l \<Rightarrow> l
     | None \<Rightarrow> c)"

definition lower :: "string \<Rightarrow> string" where
  "lower s = map lower_char s"

definition endswith :: "string \<Rightarrow> string \<Rightarrow> bool" where
  "endswith s suffix =
    (length suffix \<le> length s \<and> drop (length s - length suffix) s = suffix)"

definition get_safe_filename :: "file_rec \<Rightarrow> string" where
  "get_safe_filename file =
    (let name1 = fold (\<lambda>char n. replace_char char (CHR ''_'') n) invalid_chars (name file) in
     if is_google_apps_file (mimeType file) then
       (let extension = get_file_extension (get_export_format (mimeType file)) in
        if \<not> endswith (lower name1) (''.'' @ extension)
        then name1 @ ''.'' @ extension
        else name1)
     else name1)"

text \<open>
  The sanitizer in the words of its contract: the export extension of a native-document
  type by the fixed mapping, none for any other type.
\<close>

definition spec_extension :: "string \<Rightarrow> string option" where
  "spec_extension mime_type =
    (if mime_type = ''application/vnd.google-apps.document'' then Some ''docx''
     else if mime_type = ''application/vnd.google-apps.spreadsheet'' then Some ''xlsx''
     else if mime_type = ''application/vnd.google-apps.presentation'' then Some ''pptx''
     else if mime_type = ''application/vnd.google-apps.drawing'' then Some ''pdf''
     else None)"

definition spec_sanitize :: "file_rec \<Rightarrow> string" where
  "spec_sanitize file =
    (let n = map (\<lambda>c. if c \<in> set invalid_chars then CHR ''_'' else c) (name file) in
     case spec_extension (mimeType file) of
       None \<Rightarrow> n
     | Some e \<Rightarrow> if endswith (lower n) (''.'' @ e) then n else n @ ''.'' @ e)"

section \<open>Remote file lister\<close>

text \<open>
  The calls made on the provider, in the order made: the listing request with its
  keyword arguments, and the two content requests of the fetcher.
\<close>

datatype api_call =
    ListCall nat string "string option" string
  | ExportMedia string string
  | GetMedia string

text \<open>
  What \<^verbatim>\<open>execute()\<close> gives for one listing request: a result dictionary, of which
  \<^verbatim>\<open>results.get('files', [])\<close> and \<^verbatim>\<open>results.get('nextPageToken')\<close> are read, or an
  exception.
\<close>

datatype list_reply =
    ListResult "file_rec list option" "string option"
  | ListRaises exn

definition list_request :: "string option \<Rightarrow> api_call" where
  "list_request page_token =
    ListCall 1000 ''nextPageToken, files(id, name, mimeType, parents, size, capabilities)''
      page_token ''trashed=false''"

text \<open>\<^verbatim>\<open>results.get('files', [])\<close>.\<close>

definition items_of :: "file_rec list option \<Rightarrow> file_rec list" where
  "items_of items = (case items of None \<Rightarrow> [] | Some xs \<Rightarrow> xs)"

text \<open>\<^verbatim>\<open>not page_token\<close>: the token is \<^verbatim>\<open>None\<close> or the empty string.\<close>

definition no_token :: "string option \<Rightarrow> bool" where
  "no_token page_token = (case page_token of None \<Rightarrow> True | Some t \<Rightarrow> t = [])"

text \<open>
  The \<^verbatim>\<open>while True\<close> loop of \<^verbatim>\<open>list_all_files\<close>, run against the provider's replies in
  call order. Every iteration sends one request. The result is \<open>None\<close> when the replies
  end while the loop still asks for a page: the loop has not returned. An \<^verbatim>\<open>HttpError\<close>
  is raised again as \<^verbatim>\<open>Exception(f"Failed to list files: {e}")\<close>; any other exception
  propagates as it is.
\<close>

fun list_loop ::
  "list_reply list \<Rightarrow> string option \<Rightarrow> file_rec list \<Rightarrow> api_call list
    \<Rightarrow> api_call list \<times> (exn + file_rec list) option" where
  "list_loop [] page_token files cs = (cs @ [list_request page_token], None)"
| "list_loop (ListRaises (HttpError s m) # rs) page_token files cs =
     (cs @ [list_request page_token],
      Some (Inl (Exception (''Failed to list files: '' @ str (HttpError s m)))))"
| "list_loop (ListRaises (Exception m) # rs) page_token files cs =
     (cs @ [list_request page_token], Some (Inl (Exception m)))"
| "list_loop (ListResult items next_token # rs) page_token files cs =
     (let files' = files @ items_of items in
      if no_token next_token then (cs @ [list_request page_token], Some (Inr files'))
      else list_loop rs next_token files' (cs @ [list_request page_token]))"

definition list_all_files ::
  "list_reply list \<Rightarrow> api_call list \<times> (exn + file_rec list) option" where
  "list_all_files replies = list_loop replies None [] []"

text \<open>
  Vocabulary for the listing: a reply that is a page with a continuation token, the
  records of a reply, and its token.
\<close>

fun has_token :: "list_reply \<Rightarrow> bool" where
  "has_token (ListResult items next_token) = (\<not> no_token next_token)"
| "has_token (ListRaises e) = False"

fun reply_items :: "list_reply \<Rightarrow> file_rec list" where
  "reply_items (ListResult items next_token) = items_of items"
| "reply_items (ListRaises e) = []"

fun reply_token :: "list_reply \<Rightarrow> string option" where
  "reply_token (ListResult items next_token) = next_token"
| "reply_token (ListRaises e) = None"

text \<open>The exception that leaves \<^verbatim>\<open>list_all_files\<close> when a request raises \<open>e\<close>.\<close>

fun listing_failure :: "exn \<Rightarrow> exn" where
  "listing_failure (HttpError s m) = Exception (''Failed to list files: '' @ m)"
| "listing_failure (Exception m) = Exception m"

section \<open>Content fetcher\<close>

text \<open>
  What one call of \<^verbatim>\<open>downloader.next_chunk()\<close> gives: the bytes it appends to the
  buffer with the \<^verbatim>\<open>done\<close> flag, or an exception.
\<close>

datatype chunk_result = Chunk bytes bool | ChunkRaises exn

text \<open>
  The loop \<^verbatim>\<open>while done is False\<close> over the outcomes of the successive calls; \<open>None\<close>
  when they end before one is \<^verbatim>\<open>done\<close>: the loop has not returned.
\<close>

fun next_chunks :: "chunk_result list \<Rightarrow> bytes \<Rightarrow> (exn + bytes) option" where
  "next_chunks [] file_io = None"
| "next_chunks (ChunkRaises e # rest) file_io = Some (Inl e)"
| "next_chunks (Chunk bs done # rest) file_io =
     (if done then Some (Inr (file_io @ bs)) else next_chunks rest (file_io @ bs))"

text \<open>
  The exception the chunk reads of a download run into, if any: the first read that
  raises, every read before it having returned without \<^verbatim>\<open>done\<close>.
\<close>

fun first_raise :: "chunk_result list \<Rightarrow> exn option" where
  "first_raise [] = None"
| "first_raise (ChunkRaises e # rest) = Some e"
| "first_raise (Chunk bs done # rest) = (if done then None else first_raise rest)"

definition media_request :: "file_rec \<Rightarrow> api_call" where
  "media_request file =
    (if is_google_apps_file (mimeType file)
     then ExportMedia (file_id file) (get_export_format (mimeType file))
     else GetMedia (file_id file))"

text \<open>
  \<^verbatim>\<open>download_single_file\<close>, given the outcomes of the chunk reads of its request:
  \<open>Inr None\<close> is the returned \<^verbatim>\<open>None\<close>, \<open>Inr (Some b)\<close> the returned bytes, \<open>Inl e\<close> the
  exception that leaves the function.
\<close>

definition download_single_file ::
  "(api_call \<Rightarrow> chunk_result list) \<Rightarrow> file_rec \<Rightarrow> (exn + bytes option) option" where
  "download_single_file media file =
    (case next_chunks (media (media_request file)) [] of
       None \<Rightarrow> None
     | Some (Inr content) \<Rightarrow> Some (Inr (Some content))
     | Some (Inl (HttpError s m)) \<Rightarrow>
         if s \<in> {403, 404} then Some (Inr None) else Some (Inl (HttpError s m))
     | Some (Inl (Exception m)) \<Rightarrow> Some (Inl (Exception m)))"

section \<open>Files on disk\<close>

text \<open>
  The part of the file system the service touches: the directories that exist, and the
  archives by path, each with the entries written to it and whether its handle is still
  open. \<open>calls\<close> records the requests sent to the provider.
\<close>

record zipfile =
  entries :: "(string \<times> bytes) list"
  fp_open :: bool

record world =
  calls :: "api_call list"
  dirs :: "string list"
  zips :: "(string \<times> zipfile) list"

text \<open>
  The collaborators of one run: the provider's replies, and for each operation of the
  library and the operating system that can fail, the exception it raises, if any.
\<close>

record env =
  list_replies :: "list_reply list"
  media :: "api_call \<Rightarrow> chunk_result list"
  refresh_raises :: "exn option"
  build_raises :: "exn option"
  makedirs_raises :: "string \<Rightarrow> exn option"
  zip_open_raises :: "string \<Rightarrow> exn option"
  writestr_raises :: "string \<Rightarrow> string \<Rightarrow> bytes \<Rightarrow> exn option"
  zip_close_raises :: "string \<Rightarrow> exn option"
  rmtree_raises :: "string \<Rightarrow> exn option"

text \<open>\<^verbatim>\<open>os.path.join\<close> of two components, on a POSIX system.\<close>

definition path_join :: "string \<Rightarrow> string \<Rightarrow> string" where
  "path_join a b =
    (if b \<noteq> [] \<and> hd b = CHR ''/'' then b
     else if a = [] \<or> last a = CHR ''/'' then a @ b
     else a @ ''/'' @ b)"

text \<open>A path without its trailing separators, and the paths at or below a directory.\<close>

definition rstrip_sep :: "string \<Rightarrow> string" where
  "rstrip_sep p = rev (dropWhile (\<lambda>c. c = CHR ''/'') (rev p))"

definition is_under :: "string \<Rightarrow> string \<Rightarrow> bool" where
  "is_under d p = (p = d \<or> take (length d + 1) p = d @ ''/'')"

definition parents :: "string \<Rightarrow> string list" where
  "parents p = map (\<lambda>k. take k p) (filter (\<lambda>k. p ! k = CHR ''/'') [1..<length p])"

text \<open>\<^verbatim>\<open>os.makedirs(p, exist_ok=True)\<close>: the directory and its missing parents.\<close>

definition makedirs :: "env \<Rightarrow> string \<Rightarrow> world \<Rightarrow> exn + world" where
  "makedirs env p w =
    (case makedirs_raises env p of
       Some e \<Rightarrow> Inl e
     | None \<Rightarrow> Inr (w\<lparr>dirs := fold List.insert (parents p @ [rstrip_sep p]) (dirs w)\<rparr>))"

definition path_exists :: "string \<Rightarrow> world \<Rightarrow> bool" where
  "path_exists p w = (rstrip_sep p \<in> set (dirs w) \<or> p \<in> fst ` set (zips w))"

text \<open>
  \<^verbatim>\<open>shutil.rmtree(p)\<close>: removes the directory and everything below it; raises when the
  path is not a directory.
\<close>

definition rmtree :: "env \<Rightarrow> string \<Rightarrow> world \<Rightarrow> exn + world" where
  "rmtree env p w =
    (case rmtree_raises env p of
       Some e \<Rightarrow> Inl e
     | None \<Rightarrow>
         if rstrip_sep p \<in> set (dirs w)
         then Inr (w\<lparr>dirs := filter (\<lambda>d. \<not> is_under (rstrip_sep p) d) (dirs w),
                     zips := filter (\<lambda>(q, z). \<not> is_under (rstrip_sep p) q) (zips w)\<rparr>)
         else Inl (Exception ''NotADirectoryError''))"

text \<open>
  \<^verbatim>\<open>zipfile.ZipFile(path, 'w', ...)\<close>: a new empty archive with an open handle, replacing
  a file at that path. The handle is the path.
\<close>

definition zip_open :: "env \<Rightarrow> string \<Rightarrow> world \<Rightarrow> exn + world" where
  "zip_open env p w =
    (case zip_open_raises env p of
       Some e \<Rightarrow> Inl e
     | None \<Rightarrow> Inr (w\<lparr>zips := AList.update p \<lparr>entries = [], fp_open = True\<rparr> (zips w)\<rparr>))"

text \<open>
  \<^verbatim>\<open>ZipFile.close()\<close>: returns at once on a handle already released; otherwise writes
  the end records, which may raise, and releases the handle on either path.
\<close>

definition zip_close :: "env \<Rightarrow> string \<Rightarrow> world \<Rightarrow> exn option \<times> world" where
  "zip_close env h w =
    (case map_of (zips w) h of
       None \<Rightarrow> (None, w)
     | Some z \<Rightarrow>
         if \<not> fp_open z then (None, w)
         else (zip_close_raises env h, w\<lparr>zips := AList.update h (z\<lparr>fp_open := False\<rparr>) (zips w)\<rparr>))"

text \<open>
  \<^verbatim>\<open>ZipFile.writestr(filename, data)\<close>: appends one entry; raises on a released handle
  and when the write fails, and then adds no entry.
\<close>

definition writestr :: "env \<Rightarrow> string \<Rightarrow> string \<Rightarrow> bytes \<Rightarrow> world \<Rightarrow> exn option \<times> world" where
  "writestr env h filename content w =
    (case map_of (zips w) h of
       None \<Rightarrow> (Some (Exception ''ValueError''), w)
     | Some z \<Rightarrow>
         if \<not> fp_open z then (Some (Exception ''ValueError''), w)
         else (case writestr_raises env h filename content of
                 Some e \<Rightarrow> (Some e, w)
               | None \<Rightarrow>
                   (None, w\<lparr>zips :=
                      AList.update h (z\<lparr>entries := entries z @ [(filename, content)]\<rparr>) (zips w)\<rparr>)))"

text \<open>The archive at a path, if there is one.\<close>

definition archive_at :: "world \<Rightarrow> string \<Rightarrow> zipfile option" where
  "archive_at w p = map_of (zips w) p"

section \<open>Job progress\<close>

datatype job_status =
  Idle | Authenticated | Starting | Initializing | Listing_files | Downloading | Completed | Error

record progress =
  total_files :: int
  processed_files :: int
  current_file :: string
  status :: job_status
  zip_files :: "string list"
  error :: string

section \<open>Archive volume writer\<close>

text \<open>\<^verbatim>\<open>f"{zip_index:03d}"\<close>: the decimal digits, padded with zeros to three.\<close>

definition digit_char :: "nat \<Rightarrow> char" where
  "digit_char d = ''0123456789'' ! d"

fun digits :: "nat \<Rightarrow> string" where
  "digits n = (if n < 10 then [digit_char n] else digits (n div 10) @ [digit_char (n mod 10)])"

declare digits.simps [simp del]

definition format_03d :: "nat \<Rightarrow> string" where
  "format_03d n = replicate (3 - length (digits n)) (CHR ''0'') @ digits n"

definition max_zip_size :: int where
  "max_zip_size = 2 * 1024 * 1024 * 1024"

text \<open>\<^verbatim>\<open>not capabilities.get('canDownload', True)\<close> and \<^verbatim>\<open>int(file.get('size', 0)) or 1024\<close>.\<close>

definition can_download :: "file_rec \<Rightarrow> bool" where
  "can_download file = (case canDownload file of None \<Rightarrow> True | Some b \<Rightarrow> b)"

definition file_size_of :: "file_rec \<Rightarrow> int" where
  "file_size_of file =
    (let n = (case declared_size file of None \<Rightarrow> 0 | Some n \<Rightarrow> n) in
     if n = 0 then 1024 else n)"

text \<open>
  The local variables of \<^verbatim>\<open>download_to_zips\<close>, the progress dictionary of its session,
  and the world. \<open>zip_writer\<close> holds the handle the variable refers to, open or not.
\<close>

record writer =
  zip_index :: nat
  current_zip_size :: int
  zip_writer :: "string option"
  session_progress :: progress
  world :: world

text \<open>How a block ends: normally, or with an exception on its way out; the state in both.\<close>

datatype 'a outcome = Normal 'a | Raised exn 'a

fun state_of :: "'a outcome \<Rightarrow> 'a" where
  "state_of (Normal s) = s"
| "state_of (Raised e s) = s"

text \<open>
  Lines 299 to 312, "start new zip if needed". Closing the full volume and opening the
  next one stand outside the inner \<^verbatim>\<open>try\<close>: an exception of either leaves the loop.
\<close>

definition start_new_zip :: "env \<Rightarrow> string \<Rightarrow> int \<Rightarrow> writer \<Rightarrow> writer outcome" where
  "start_new_zip env job_dir file_size st =
    (if zip_writer st = None \<or> current_zip_size st + file_size > max_zip_size then
       (case (case zip_writer st of
                None \<Rightarrow> (None, world st)
              | Some h \<Rightarrow> zip_close env h (world st)) of
          (Some e, w1) \<Rightarrow> Raised e (st\<lparr>world := w1\<rparr>)
        | (None, w1) \<Rightarrow>
            (let zip_filename = ''drive_backup_'' @ format_03d (zip_index st) @ ''.zip'';
                 zip_path = path_join job_dir zip_filename
             in case zip_open env zip_path w1 of
                  Inl e \<Rightarrow> Raised e (st\<lparr>world := w1\<rparr>)
                | Inr w2 \<Rightarrow>
                    Normal (st\<lparr>zip_writer := Some zip_path,
                               current_zip_size := 0,
                               zip_index := zip_index st + 1,
                               session_progress := (session_progress st)
                                 \<lparr>zip_files := zip_files (session_progress st) @ [zip_filename]\<rparr>,
                               world := w2\<rparr>)))
     else Normal st)"

text \<open>
  Lines 317 to 330, the inner \<^verbatim>\<open>try\<close>: every exception of the fetch and of the write is
  caught, so the block ends normally whenever the fetch returns; \<open>None\<close> when the fetch
  does not return. Empty content is skipped like absent content
  (\<^verbatim>\<open>if file_content\<close>).
\<close>

definition fetch_and_write :: "env \<Rightarrow> file_rec \<Rightarrow> writer \<Rightarrow> writer option" where
  "fetch_and_write env file st =
    (let st1 = st\<lparr>world := (world st)\<lparr>calls := calls (world st) @ [media_request file]\<rparr>\<rparr> in
     case download_single_file (media env) file of
       None \<Rightarrow> None
     | Some (Inl e) \<Rightarrow> Some st1
     | Some (Inr None) \<Rightarrow> Some st1
     | Some (Inr (Some file_content)) \<Rightarrow>
         if file_content = [] then Some st1
         else
           (case zip_writer st1 of
              None \<Rightarrow> Some st1
            | Some h \<Rightarrow>
                (case writestr env h (get_safe_filename file) file_content (world st1) of
                   (Some e, w) \<Rightarrow> Some (st1\<lparr>world := w\<rparr>)
                 | (None, w) \<Rightarrow>
                     Some (st1\<lparr>current_zip_size :=
                                 current_zip_size st1 + int (length file_content),
                               world := w\<rparr>))))"

text \<open>The body of the loop for the record at index \<open>i\<close>.\<close>

definition process_file ::
  "env \<Rightarrow> string \<Rightarrow> nat \<Rightarrow> file_rec \<Rightarrow> writer \<Rightarrow> writer outcome option" where
  "process_file env job_dir i file st =
    (if \<not> can_download file then
       Some (Normal (st\<lparr>session_progress :=
                          (session_progress st)\<lparr>processed_files := int i + 1\<rparr>\<rparr>))
     else
       case start_new_zip env job_dir (file_size_of file) st of
         Raised e st1 \<Rightarrow> Some (Raised e st1)
       | Normal st1 \<Rightarrow>
           (case fetch_and_write env file
                   (st1\<lparr>session_progress :=
                          (session_progress st1)
                            \<lparr>current_file := name file, processed_files := int i + 1\<rparr>\<rparr>) of
              None \<Rightarrow> None
            | Some st2 \<Rightarrow> Some (Normal st2)))"

text \<open>\<^verbatim>\<open>for i, file in enumerate(files)\<close>, from index \<open>i\<close> on.\<close>

fun download_loop ::
  "env \<Rightarrow> string \<Rightarrow> nat \<Rightarrow> file_rec list \<Rightarrow> writer \<Rightarrow> writer outcome option" where
  "download_loop env job_dir i [] st = Some (Normal st)"
| "download_loop env job_dir i (file # files) st =
     (case process_file env job_dir i file st of
        None \<Rightarrow> None
      | Some (Raised e st1) \<Rightarrow> Some (Raised e st1)
      | Some (Normal st1) \<Rightarrow> download_loop env job_dir (Suc i) files st1)"

text \<open>
  The \<^verbatim>\<open>finally\<close> block: closes the handle the variable holds; an exception of that
  close replaces the one on its way out.
\<close>

definition finally_close :: "env \<Rightarrow> writer outcome \<Rightarrow> writer outcome" where
  "finally_close env out =
    (let st = state_of out in
     case zip_writer st of
       None \<Rightarrow> out
     | Some h \<Rightarrow>
         (case zip_close env h (world st) of
            (Some e, w) \<Rightarrow> Raised e (st\<lparr>world := w\<rparr>)
          | (None, w) \<Rightarrow>
              (case out of
                 Normal _ \<Rightarrow> Normal (st\<lparr>world := w\<rparr>)
               | Raised e _ \<Rightarrow> Raised e (st\<lparr>world := w\<rparr>))))"

definition initial_writer :: "progress \<Rightarrow> world \<Rightarrow> writer" where
  "initial_writer p w =
    \<lparr>zip_index = 1, current_zip_size = 0, zip_writer = None, session_progress = p, world = w\<rparr>"

definition download_to_zips ::
  "env \<Rightarrow> file_rec list \<Rightarrow> string \<Rightarrow> progress \<Rightarrow> world \<Rightarrow> writer outcome option" where
  "download_to_zips env files job_id p w =
    (let job_dir = path_join ''downloads'' job_id in
     case makedirs env job_dir w of
       Inl e \<Rightarrow> Some (Raised e (initial_writer p w))
     | Inr w1 \<Rightarrow>
         (case download_loop env job_dir 0 files (initial_writer p w1) of
            None \<Rightarrow> None
          | Some out \<Rightarrow> Some (finally_close env out)))"

section \<open>Sessions and the job\<close>

text \<open>
  \<^verbatim>\<open>UserSession\<close>. Of the credential only \<^verbatim>\<open>expired\<close> is read here. Times are
  microseconds, the resolution of \<^verbatim>\<open>datetime\<close>.
\<close>

record credentials =
  expired :: bool

record user_session =
  token :: "credentials option"
  state :: string
  job_id :: string
  created_at :: int
  progress :: progress

definition new_session :: "int \<Rightarrow> user_session" where
  "new_session now =
    \<lparr>token = None, state = [], job_id = [], created_at = now,
     progress = \<lparr>total_files = 0, processed_files = 0, current_file = [], status = Idle,
                 zip_files = [], error = []\<rparr>\<rparr>"

text \<open>
  The handlers, on the registry \<^verbatim>\<open>drive_app.sessions\<close>: \<^verbatim>\<open>start_login\<close> stores a new
  session under a new key; \<^verbatim>\<open>auth_callback\<close>, where the state matches and the token
  exchange succeeds, stores the credential; \<^verbatim>\<open>start_download\<close> gives the session a
  job id and a new progress dictionary (\<open>None\<close> is the answer 401).
\<close>

definition start_login ::
  "int \<Rightarrow> string \<Rightarrow> string \<Rightarrow> (string \<times> user_session) list \<Rightarrow> (string \<times> user_session) list" where
  "start_login now session_id new_state sessions =
    AList.update session_id ((new_session now)\<lparr>state := new_state\<rparr>) sessions"

definition auth_callback ::
  "string \<Rightarrow> credentials \<Rightarrow> (string \<times> user_session) list \<Rightarrow> (string \<times> user_session) list" where
  "auth_callback session_id creds sessions =
    (case map_of sessions session_id of
       None \<Rightarrow> sessions
     | Some s \<Rightarrow>
         AList.update session_id
           (s\<lparr>token := Some creds, progress := (progress s)\<lparr>status := Authenticated\<rparr>\<rparr>) sessions)"

definition start_download ::
  "string \<Rightarrow> string \<Rightarrow> (string \<times> user_session) list \<Rightarrow> (string \<times> user_session) list option" where
  "start_download session_id new_job_id sessions =
    (case map_of sessions session_id of
       None \<Rightarrow> None
     | Some s \<Rightarrow>
         (case token s of
            None \<Rightarrow> None
          | Some t \<Rightarrow>
              Some (AList.update session_id
                (s\<lparr>job_id := new_job_id,
                   progress := \<lparr>total_files = 0, processed_files = 0, current_file = [],
                                status = Starting, zip_files = [], error = []\<rparr>\<rparr>) sessions)))"

text \<open>The handler \<^verbatim>\<open>except Exception as e\<close> of \<^verbatim>\<open>process_download\<close>.\<close>

definition on_error :: "exn \<Rightarrow> user_session \<Rightarrow> user_session" where
  "on_error e s = s\<lparr>progress := (progress s)\<lparr>status := Error, error := str e\<rparr>\<rparr>"

definition folder_type :: string where
  "folder_type = ''application/vnd.google-apps.folder''"

text \<open>
  \<^verbatim>\<open>process_download\<close>: the session and the world when the task ends; \<open>None\<close> when the
  listing or a fetch does not return.
\<close>

definition process_download ::
  "env \<Rightarrow> user_session \<Rightarrow> world \<Rightarrow> (user_session \<times> world) option" where
  "process_download env session w =
    (let s1 = session\<lparr>progress := (progress session)\<lparr>status := Initializing\<rparr>\<rparr> in
     case token s1 of
       None \<Rightarrow> Some (on_error (Exception ''AttributeError'') s1, w)
     | Some t \<Rightarrow>
         (case (if expired t then refresh_raises env else None) of
            Some e \<Rightarrow> Some (on_error e s1, w)
          | None \<Rightarrow>
              (case build_raises env of
                 Some e \<Rightarrow> Some (on_error e s1, w)
               | None \<Rightarrow>
                   (let s2 = s1\<lparr>token := Some (t\<lparr>expired := False\<rparr>),
                                progress := (progress s1)\<lparr>status := Listing_files\<rparr>\<rparr>;
                        listing = list_all_files (list_replies env);
                        w1 = w\<lparr>calls := calls w @ fst listing\<rparr>
                    in case snd listing of
                         None \<Rightarrow> None
                       | Some (Inl e) \<Rightarrow> Some (on_error e s2, w1)
                       | Some (Inr files) \<Rightarrow>
                           (let downloadable_files =
                                  filter (\<lambda>f. mimeType f \<noteq> folder_type) files;
                                s3 = s2\<lparr>progress := (progress s2)
                                       \<lparr>total_files := int (length downloadable_files),
                                        status := Downloading\<rparr>\<rparr>
                            in case download_to_zips env downloadable_files (job_id s3)
                                      (progress s3) w1 of
                                 None \<Rightarrow> None
                               | Some (Raised e st) \<Rightarrow>
                                   Some (on_error e (s3\<lparr>progress := session_progress st\<rparr>),
                                         world st)
                               | Some (Normal st) \<Rightarrow>
                                   Some (s3\<lparr>progress :=
                                              (session_progress st)\<lparr>status := Completed\<rparr>\<rparr>,
                                         world st))))))"

section \<open>Retention sweep\<close>

definition cleanup_interval :: int where
  "cleanup_interval = 3600"

definition timedelta_hours :: "int \<Rightarrow> int" where
  "timedelta_hours h = h * 3600 * 1000000"

text \<open>The first loop of a tick: the keys of the sessions older than four hours.\<close>

definition expired_sessions :: "int \<Rightarrow> (string \<times> user_session) list \<Rightarrow> string list" where
  "expired_sessions current_time sessions =
    map fst (filter (\<lambda>(session_id, session).
      current_time - created_at session > timedelta_hours 4) sessions)"

text \<open>
  The second loop: for each key still in the registry, the directory of the session's
  job id is removed if it exists, and the session is deleted. An exception of
  \<^verbatim>\<open>rmtree\<close> ends the task.
\<close>

fun remove_sessions ::
  "env \<Rightarrow> string list \<Rightarrow> (string \<times> user_session) list \<times> world
    \<Rightarrow> exn option \<times> (string \<times> user_session) list \<times> world" where
  "remove_sessions env [] (sessions, w) = (None, sessions, w)"
| "remove_sessions env (session_id # rest) (sessions, w) =
     (case map_of sessions session_id of
        None \<Rightarrow> remove_sessions env rest (sessions, w)
      | Some s \<Rightarrow>
          (let job_dir = path_join ''downloads'' (job_id s) in
           if path_exists job_dir w then
             (case rmtree env job_dir w of
                Inl e \<Rightarrow> (Some e, sessions, w)
              | Inr w1 \<Rightarrow> remove_sessions env rest (AList.delete session_id sessions, w1))
           else remove_sessions env rest (AList.delete session_id sessions, w)))"

definition cleanup_tick ::
  "env \<Rightarrow> int \<Rightarrow> (string \<times> user_session) list \<times> world
    \<Rightarrow> exn option \<times> (string \<times> user_session) list \<times> world" where
  "cleanup_tick env current_time app =
    remove_sessions env (expired_sessions current_time (fst app)) app"

text \<open>
  \<^verbatim>\<open>cleanup_sessions\<close>: the loop never returns; here it runs one tick for each reading
  of the clock after a sleep of \<open>cleanup_interval\<close> seconds, and stops at an exception.
\<close>

fun cleanup_sessions ::
  "env \<Rightarrow> int list \<Rightarrow> (string \<times> user_session) list \<times> world
    \<Rightarrow> exn option \<times> (string \<times> user_session) list \<times> world" where
  "cleanup_sessions env [] app = (None, app)"
| "cleanup_sessions env (current_time # later) app =
     (case cleanup_tick env current_time app of
        (Some e, app1) \<Rightarrow> (Some e, app1)
      | (None, app1) \<Rightarrow> cleanup_sessions env later app1)"

section \<open>Sample inputs\<close>

text \<open>
  Inputs for running the definitions: an ordinary file, content of a given length, an
  environment in which nothing fails, and an empty world.
\<close>

definition sample_file :: "string \<Rightarrow> int option \<Rightarrow> file_rec" where
  "sample_file n sz =
    \<lparr>file_id = n, name = n, mimeType = ''application/octet-stream'', declared_size = sz,
     canDownload = None\<rparr>"


definition quiet_env :: "list_reply list \<Rightarrow> (api_call \<Rightarrow> chunk_result list) \<Rightarrow> env" where
  "quiet_env replies chunks =
    \<lparr>list_replies = replies, media = chunks, refresh_raises = None, build_raises = None,
     makedirs_raises = (\<lambda>p. None), zip_open_raises = (\<lambda>p. None),
     writestr_raises = (\<lambda>h n c. None), zip_close_raises = (\<lambda>h. None),
     rmtree_raises = (\<lambda>p. None)\<rparr>"

definition empty_world :: world where
  "empty_world = \<lparr>calls = [], dirs = [], zips = []\<rparr>"

text \<open>
  A provider with one readable file: the content request for the file with id \<^verbatim>\<open>a\<close> is
  answered with three bytes in two chunks, every other content request with status 404.
  An inventory of that file, a file that may not be downloaded, and a file that is gone.
\<close>

definition sample_chunks :: "api_call \<Rightarrow> chunk_result list" where
  "sample_chunks c =
    (if c = GetMedia ''a'' then [Chunk [1, 2] False, Chunk [3] True]
     else [ChunkRaises (HttpError 404 ''gone'')])"

definition sample_inventory :: "file_rec list" where
  "sample_inventory =
    [sample_file ''a'' (Some 3), (sample_file ''b'' None)\<lparr>canDownload := Some False\<rparr>,
     sample_file ''c'' None]"

definition sample_progress :: progress where
  "sample_progress =
    \<lparr>total_files = 3, processed_files = 0, current_file = [], status = Downloading,
     zip_files = [], error = []\<rparr>"

text \<open>An environment in which opening any archive fails.\<close>

definition full_disk_env :: env where
  "full_disk_env =
    (quiet_env [] sample_chunks)\<lparr>zip_open_raises := (\<lambda>p. Some (Exception ''disk full''))\<rparr>"

text \<open>
  A folder record, and an environment whose listing is the sample inventory and the
  folder on one page.
\<close>

definition sample_folder :: file_rec where
  "sample_folder = (sample_file ''d'' None)\<lparr>mimeType := folder_type\<rparr>"

definition sample_env :: env where
  "sample_env =
    quiet_env [ListResult (Some (sample_inventory @ [sample_folder])) None] sample_chunks"

text \<open>A writer whose first volume is open and nearly full.\<close>

definition full_volume_writer :: writer where
  "full_volume_writer =
    \<lparr>zip_index = 2, current_zip_size = 2147483000,
     zip_writer = Some ''downloads/job/drive_backup_001.zip'',
     session_progress = sample_progress\<lparr>zip_files := [''drive_backup_001.zip'']\<rparr>,
     world = \<lparr>calls = [], dirs = [],
              zips = [(''downloads/job/drive_backup_001.zip'',
                       \<lparr>entries = [(''a'', [1])], fp_open = True\<rparr>)]\<rparr>\<rparr>"




section \<open>Timelines\<close>

text \<open>
  The requests and ticks of a run, each with the time at which it happens. The handlers
  read the clock only in \<open>start_login\<close> (through \<^verbatim>\<open>UserSession()\<close>) and in the sweep;
  \<open>start_download\<close> stores no time. \<open>Work\<close> is the background task of a session running
  to its end.
\<close>

datatype event =
    Login int string string
  | Callback int string credentials
  | StartDownload int string string
  | Work int string
  | Tick int

fun run_event ::
  "env \<Rightarrow> event \<Rightarrow> (string \<times> user_session) list \<times> world
    \<Rightarrow> (string \<times> user_session) list \<times> world" where
  "run_event env (Login now session_id new_state) (sessions, w) =
     (start_login now session_id new_state sessions, w)"
| "run_event env (Callback now session_id creds) (sessions, w) =
     (auth_callback session_id creds sessions, w)"
| "run_event env (StartDownload now session_id new_job_id) (sessions, w) =
     (case start_download session_id new_job_id sessions of
        None \<Rightarrow> (sessions, w)
      | Some sessions1 \<Rightarrow> (sessions1, w))"
| "run_event env (Work now session_id) (sessions, w) =
     (case map_of sessions session_id of
        None \<Rightarrow> (sessions, w)
      | Some s \<Rightarrow>
          (case process_download env s w of
             None \<Rightarrow> (sessions, w)
           | Some (s1, w1) \<Rightarrow> (AList.update session_id s1 sessions, w1)))"
| "run_event env (Tick now) (sessions, w) = snd (cleanup_tick env now (sessions, w))"

definition run_events ::
  "env \<Rightarrow> event list \<Rightarrow> (string \<times> user_session) list \<times> world
    \<Rightarrow> (string \<times> user_session) list \<times> world" where
  "run_events env events app = fold (run_event env) events app"

text \<open>When a job was created: the time of the start request that named it.\<close>

fun job_created :: "event list \<Rightarrow> string \<Rightarrow> int option" where
  "job_created [] j = None"
| "job_created (StartDownload now session_id new_job_id # rest) j =
     (if new_job_id = j then Some now else job_created rest j)"
| "job_created (ev # rest) j = job_created rest j"

text \<open>
  A login at time 0, a job started two hours later and run, and the state before the
  sweep tick at five hours.
\<close>

definition late_job_timeline :: "event list" where
  "late_job_timeline =
    [Login 0 ''sid'' ''st'', Callback 0 ''sid'' \<lparr>expired = False\<rparr>,
     StartDownload (timedelta_hours 2) ''sid'' ''job'', Work (timedelta_hours 2) ''sid'']"

text \<open>
  A registry of a session five hours old whose job is still running and a session three
  hours old, at the time of five hours, with the directories of both jobs.
\<close>

definition two_sessions :: "(string \<times> user_session) list" where
  "two_sessions =
    [(''old'', (new_session 0)\<lparr>token := Some \<lparr>expired = False\<rparr>, job_id := ''job1'',
                 progress := sample_progress\<rparr>),
     (''new'', (new_session (timedelta_hours 2))
                 \<lparr>token := Some \<lparr>expired = False\<rparr>, job_id := ''job2'',
                  progress := sample_progress\<lparr>status := Completed\<rparr>\<rparr>)]"

definition two_jobs_world :: world where
  "two_jobs_world =
    \<lparr>calls = [], dirs = [''downloads'', ''downloads/job1'', ''downloads/job2''],
     zips = [(''downloads/job1/drive_backup_001.zip'', \<lparr>entries = [], fp_open = True\<rparr>),
             (''downloads/job2/drive_backup_001.zip'', \<lparr>entries = [], fp_open = False\<rparr>)]\<rparr>"

section \<open>The filename sanitizer meets its contract\<close>

lemma fold_replace_char:
  "fold (\<lambda>char n. replace_char char (CHR ''_'') n) cs s =
     map (\<lambda>c. if c \<in> set cs then CHR ''_'' else c) s"
proof (induction cs arbitrary: s)
  case Nil
  show ?case by simp
next
  case (Cons a cs)
  have "fold (\<lambda>char n. replace_char char (CHR ''_'') n) (a # cs) s =
        map (\<lambda>c. if c \<in> set cs then CHR ''_'' else c) (replace_char a (CHR ''_'') s)"
    by (simp add: Cons.IH)
  also have "\<dots> = map (\<lambda>c. if c \<in> set (a # cs) then CHR ''_'' else c) s"
    by (simp add: replace_char_def)
  finally show ?case .
qed

lemma native_iff_extension:
  "is_google_apps_file m \<longleftrightarrow> spec_extension m \<noteq> None"
  by (simp add: is_google_apps_file_def google_apps_types_def spec_extension_def)

lemma extension_of_export_format:
  "spec_extension m = Some e \<Longrightarrow> get_file_extension (get_export_format m) = e"
  by (auto simp: spec_extension_def get_file_extension_def get_export_format_def formats_def
      extensions_def split: if_splits)

lemma get_safe_filename_refines: "get_safe_filename f = spec_sanitize f"
proof (cases "spec_extension (mimeType f)")
  case None
  then show ?thesis
    by (simp add: get_safe_filename_def spec_sanitize_def native_iff_extension fold_replace_char)
next
  case (Some e)
  then show ?thesis
    by (simp add: get_safe_filename_def spec_sanitize_def native_iff_extension fold_replace_char
        extension_of_export_format Let_def)
qed

text \<open>
  Claim C6. For every file record, \<open>get_safe_filename\<close> is the contract's function
  \<open>spec_sanitize\<close>: every character of \<^verbatim>\<open>< > : " / \ | ? *\<close> in the name becomes an
  underscore, and for a native-document type the extension of its export format (docx,
  xlsx, pptx, pdf by the fixed mapping) is appended with its dot unless the name, in lower
  case, already ends with it. A name with no illegal character that already carries the
  extension is returned unchanged, and the document named \<^verbatim>\<open>Report\<close> becomes
  \<^verbatim>\<open>Report.docx\<close>.
\<close>

theorem get_safe_filename_contract:
  "get_safe_filename f = spec_sanitize f
   \<and> ((\<forall>c \<in> set (name f). c \<notin> set invalid_chars)
        \<and> (\<forall>e. spec_extension (mimeType f) = Some e
              \<longrightarrow> endswith (lower (name f)) (''.'' @ e))
      \<longrightarrow> get_safe_filename f = name f)
   \<and> (name f = ''Report'' \<and> mimeType f = ''application/vnd.google-apps.document''
      \<longrightarrow> get_safe_filename f = ''Report.docx'')"
proof (intro conjI impI)
  show "get_safe_filename f = spec_sanitize f" by (rule get_safe_filename_refines)
next
  assume h: "(\<forall>c \<in> set (name f). c \<notin> set invalid_chars)
        \<and> (\<forall>e. spec_extension (mimeType f) = Some e
              \<longrightarrow> endswith (lower (name f)) (''.'' @ e))"
  then have m: "map (\<lambda>c. if c \<in> set invalid_chars then CHR ''_'' else c) (name f) = name f"
    by (simp add: map_idI)
  show "get_safe_filename f = name f"
    using h
    by (auto simp: get_safe_filename_refines spec_sanitize_def m Let_def split: option.splits)
next
  assume h: "name f = ''Report'' \<and> mimeType f = ''application/vnd.google-apps.document''"
  then show "get_safe_filename f = ''Report.docx''"
    by (simp add: get_safe_filename_refines spec_sanitize_def spec_extension_def invalid_chars_def
        endswith_def lower_def lower_char_def)
qed

theorem get_safe_filename_contract_witness:
  "get_safe_filename \<lparr>file_id = ''1'', name = ''Report'',
       mimeType = ''application/vnd.google-apps.document'', declared_size = None,
       canDownload = None\<rparr> = ''Report.docx''
   \<and> get_safe_filename \<lparr>file_id = ''2'', name = ''Budget 2024.XLSX'',
       mimeType = ''application/vnd.google-apps.spreadsheet'', declared_size = None,
       canDownload = None\<rparr> = ''Budget 2024.XLSX''
   \<and> get_safe_filename \<lparr>file_id = ''3'', name = ''a/b:c?.txt'',
       mimeType = ''text/plain'', declared_size = Some 5,
       canDownload = Some True\<rparr> = ''a_b_c_.txt''"
  using get_safe_filename_contract [of "\<lparr>file_id = ''1'', name = ''Report'',
       mimeType = ''application/vnd.google-apps.document'', declared_size = None,
       canDownload = None\<rparr>"]
    get_safe_filename_contract [of "\<lparr>file_id = ''2'', name = ''Budget 2024.XLSX'',
       mimeType = ''application/vnd.google-apps.spreadsheet'', declared_size = None,
       canDownload = None\<rparr>"]
    get_safe_filename_contract [of "\<lparr>file_id = ''3'', name = ''a/b:c?.txt'',
       mimeType = ''text/plain'', declared_size = Some 5,
       canDownload = Some True\<rparr>"]
  by (simp add: spec_sanitize_def spec_extension_def invalid_chars_def
        endswith_def lower_def lower_char_def)

section \<open>The lister pages through the whole listing\<close>

lemma list_loop_pages:
  "\<forall>r \<in> set pages. has_token r \<Longrightarrow>
   list_loop (pages @ rest) tok files cs =
     list_loop rest (last (tok # map reply_token pages))
       (files @ concat (map reply_items pages))
       (cs @ map list_request (butlast (tok # map reply_token pages)))"
proof (induction pages arbitrary: tok files cs)
  case Nil
  show ?case by simp
next
  case (Cons p ps)
  from Cons.prems obtain items t where p: "p = ListResult items t" and t: "\<not> no_token t"
    by (cases p) auto
  from Cons.prems have ps: "\<forall>r \<in> set ps. has_token r" by simp
  show ?case
    using Cons.IH [OF ps, of t "files @ items_of items" "cs @ [list_request tok]"] p t
    by simp
qed

lemma list_loop_calls:
  "\<forall>c \<in> set cs. \<exists>t. c = list_request t \<Longrightarrow>
   \<forall>c \<in> set (fst (list_loop replies tok files cs)). \<exists>t. c = list_request t"
proof (induction replies tok files cs rule: list_loop.induct)
  case (1 page_token files cs)
  then show ?case by auto
next
  case (2 s m rs page_token files cs)
  then show ?case by auto
next
  case (3 m rs page_token files cs)
  then show ?case by auto
next
  case (4 items next_token rs page_token files cs)
  show ?case
  proof (cases "no_token next_token")
    case True
    with 4 show ?thesis by auto
  next
    case False
    have "\<forall>c \<in> set (cs @ [list_request page_token]). \<exists>t. c = list_request t"
      using "4.prems" by auto
    from "4.IH" [OF refl False this] False show ?thesis by simp
  qed
qed

text \<open>
  Claim C2. Whatever the provider replies, every request of \<open>list_all_files\<close> asks for
  pages of 1000 records with the query \<^verbatim>\<open>trashed=false\<close>. While the replies are pages
  with a continuation token the loop goes on (and has not returned when they end); at the
  first page without a token (absent or empty) it returns the records of all pages so far,
  concatenated in the order received, having sent one request per page, each with the
  token of the page before; at the first request that raises, the listing raises and
  returns no records. Three pages of two records with tokens \<^verbatim>\<open>"a"\<close>, \<^verbatim>\<open>"b"\<close> and none
  give the six records in call order.
\<close>

theorem list_all_files_pagination:
  "((\<forall>r \<in> set pages. has_token r) \<and> no_token t \<longrightarrow>
      list_all_files (pages @ ListResult items t # later) =
        (map list_request (None # map reply_token pages),
         Some (Inr (concat (map reply_items pages) @ items_of items))))
   \<and> ((\<forall>r \<in> set pages. has_token r) \<longrightarrow> snd (list_all_files pages) = None)
   \<and> ((\<forall>r \<in> set pages. has_token r) \<longrightarrow>
      list_all_files (pages @ ListRaises e # later) =
        (map list_request (None # map reply_token pages), Some (Inl (listing_failure e))))
   \<and> (\<forall>c \<in> set (fst (list_all_files replies)).
        \<exists>page_token fields. c = ListCall 1000 fields page_token ''trashed=false'')
   \<and> list_all_files
        [ListResult (Some [f1, f2]) (Some ''a''), ListResult (Some [f3, f4]) (Some ''b''),
         ListResult (Some [f5, f6]) None] =
        ([list_request None, list_request (Some ''a''), list_request (Some ''b'')],
         Some (Inr [f1, f2, f3, f4, f5, f6]))"
proof (intro conjI impI)
  assume h: "(\<forall>r \<in> set pages. has_token r) \<and> no_token t"
  then have "list_all_files (pages @ ListResult items t # later) =
     list_loop (ListResult items t # later) (last (None # map reply_token pages))
       (concat (map reply_items pages))
       (map list_request (butlast (None # map reply_token pages)))"
    unfolding list_all_files_def using list_loop_pages [of pages _ None "[]" "[]"] by simp
  also have "\<dots> = (map list_request (butlast (None # map reply_token pages)
                        @ [last (None # map reply_token pages)]),
                    Some (Inr (concat (map reply_items pages) @ items_of items)))"
    using h by simp
  also have "butlast (None # map reply_token pages) @ [last (None # map reply_token pages)]
      = None # map reply_token pages"
    by (rule append_butlast_last_id) simp
  finally show "list_all_files (pages @ ListResult items t # later) =
        (map list_request (None # map reply_token pages),
         Some (Inr (concat (map reply_items pages) @ items_of items)))" .
next
  assume h: "\<forall>r \<in> set pages. has_token r"
  show "snd (list_all_files pages) = None"
    unfolding list_all_files_def using list_loop_pages [OF h, of "[]" None "[]" "[]"] by simp
next
  assume h: "\<forall>r \<in> set pages. has_token r"
  have "list_all_files (pages @ ListRaises e # later) =
     list_loop (ListRaises e # later) (last (None # map reply_token pages))
       (concat (map reply_items pages))
       (map list_request (butlast (None # map reply_token pages)))"
    unfolding list_all_files_def using list_loop_pages [OF h, of _ None "[]" "[]"] by simp
  also have "\<dots> = (map list_request (butlast (None # map reply_token pages)
                        @ [last (None # map reply_token pages)]),
                    Some (Inl (listing_failure e)))"
    by (cases e) simp_all
  also have "butlast (None # map reply_token pages) @ [last (None # map reply_token pages)]
      = None # map reply_token pages"
    by (rule append_butlast_last_id) simp
  finally show "list_all_files (pages @ ListRaises e # later) =
        (map list_request (None # map reply_token pages), Some (Inl (listing_failure e)))" .
next
  show "\<forall>c \<in> set (fst (list_all_files replies)).
        \<exists>page_token fields. c = ListCall 1000 fields page_token ''trashed=false''"
    unfolding list_all_files_def
    using list_loop_calls [of "[]" replies None "[]"] by (auto simp: list_request_def)
next
  show "list_all_files
        [ListResult (Some [f1, f2]) (Some ''a''), ListResult (Some [f3, f4]) (Some ''b''),
         ListResult (Some [f5, f6]) None] =
        ([list_request None, list_request (Some ''a''), list_request (Some ''b'')],
         Some (Inr [f1, f2, f3, f4, f5, f6]))"
    by (simp add: list_all_files_def no_token_def items_of_def)
qed

theorem list_all_files_pagination_witness:
  "list_all_files
     [ListResult (Some [sample_file ''x'' None]) (Some ''a''), ListResult None (Some []),
      ListRaises (Exception ''late'')] =
     ([list_request None, list_request (Some ''a'')], Some (Inr [sample_file ''x'' None]))
   \<and> snd (list_all_files [ListResult (Some [sample_file ''x'' None]) (Some ''a'')]) = None
   \<and> list_all_files
       [ListResult (Some [sample_file ''x'' None]) (Some ''a''),
        ListRaises (HttpError 500 ''boom''), ListResult None None] =
       ([list_request None, list_request (Some ''a'')],
        Some (Inl (Exception ''Failed to list files: boom'')))"
  using list_all_files_pagination
    [where pages = "[ListResult (Some [sample_file ''x'' None]) (Some ''a'')]"
       and t = "Some []" and items = None and later = "[ListRaises (Exception ''late'')]"
       and e = "HttpError 500 ''boom''" and replies = "[]"]
    list_all_files_pagination
    [where pages = "[ListResult (Some [sample_file ''x'' None]) (Some ''a'')]"
       and t = "Some []" and items = None and later = "[ListResult None None]"
       and e = "HttpError 500 ''boom''" and replies = "[]"]
  by (simp add: no_token_def items_of_def)

section \<open>The fetcher's error contract\<close>

lemma next_chunks_first_raise:
  "next_chunks script buf = Some (Inl e) \<longleftrightarrow> first_raise script = Some e"
  by (induction script buf rule: next_chunks.induct) auto

text \<open>
  Claim C5. For every file record, \<open>download_single_file\<close> returns \<^verbatim>\<open>None\<close> exactly
  when the chunk reads of its request run into an \<^verbatim>\<open>HttpError\<close> of status 403 or 404;
  every other exception they run into leaves the function as it is.
\<close>

theorem download_single_file_contract:
  "(download_single_file chunks f = Some (Inr None) \<longleftrightarrow>
      (\<exists>s m. first_raise (chunks (media_request f)) = Some (HttpError s m) \<and> (s = 403 \<or> s = 404)))
   \<and> (first_raise (chunks (media_request f)) = Some e
        \<and> (\<forall>s m. e = HttpError s m \<longrightarrow> s \<noteq> 403 \<and> s \<noteq> 404)
      \<longrightarrow> download_single_file chunks f = Some (Inl e))"
proof (intro conjI impI)
  show "download_single_file chunks f = Some (Inr None) \<longleftrightarrow>
      (\<exists>s m. first_raise (chunks (media_request f)) = Some (HttpError s m) \<and> (s = 403 \<or> s = 404))"
    unfolding next_chunks_first_raise [where buf = "[]", symmetric]
    by (auto simp: download_single_file_def split: option.splits sum.splits exn.splits if_splits)
next
  assume "first_raise (chunks (media_request f)) = Some e
        \<and> (\<forall>s m. e = HttpError s m \<longrightarrow> s \<noteq> 403 \<and> s \<noteq> 404)"
  then have "next_chunks (chunks (media_request f)) [] = Some (Inl e)"
     and "\<forall>s m. e = HttpError s m \<longrightarrow> s \<noteq> 403 \<and> s \<noteq> 404"
    by (simp_all add: next_chunks_first_raise)
  then show "download_single_file chunks f = Some (Inl e)"
    by (cases e) (simp_all add: download_single_file_def)
qed

theorem download_single_file_contract_witness:
  "download_single_file (\<lambda>c. [Chunk [1] False, ChunkRaises (HttpError 404 ''gone'')])
     (sample_file ''x'' None) = Some (Inr None)
   \<and> download_single_file (\<lambda>c. [ChunkRaises (HttpError 500 ''boom'')])
     (sample_file ''x'' None) = Some (Inl (HttpError 500 ''boom''))"
  using download_single_file_contract
    [where chunks = "\<lambda>c. [Chunk [1] False, ChunkRaises (HttpError 404 ''gone'')]"
       and f = "sample_file ''x'' None" and e = "Exception []"]
    download_single_file_contract
    [where chunks = "\<lambda>c. [ChunkRaises (HttpError 500 ''boom'')]"
       and f = "sample_file ''x'' None" and e = "HttpError 500 ''boom''"]
  by simp

section \<open>Effects of the archive operations\<close>

lemma zipfile_close_closed: "\<not> fp_open z \<Longrightarrow> z\<lparr>fp_open := False\<rparr> = z"
  by (cases z) simp

lemma zip_close_effect:
  assumes "zip_close env h w = (r, w')"
  shows "calls w' = calls w" and "dirs w' = dirs w"
    and "archive_at w' =
      (\<lambda>p. if p = h then map_option (\<lambda>z. z\<lparr>fp_open := False\<rparr>) (archive_at w h)
           else archive_at w p)"
proof -
  show "calls w' = calls w" and "dirs w' = dirs w"
    using assms by (auto simp: zip_close_def split: option.splits if_splits)
  show "archive_at w' =
      (\<lambda>p. if p = h then map_option (\<lambda>z. z\<lparr>fp_open := False\<rparr>) (archive_at w h)
           else archive_at w p)"
    using assms
    by (auto simp: zip_close_def archive_at_def update_conv' fun_eq_iff zipfile_close_closed
        split: option.splits if_splits)
qed

lemma zip_open_effect:
  assumes "zip_open env p w = Inr w'"
  shows "calls w' = calls w" and "dirs w' = dirs w"
    and "archive_at w' = (archive_at w)(p \<mapsto> \<lparr>entries = [], fp_open = True\<rparr>)"
    and "zip_open_raises env p = None"
  using assms
  by (auto simp: zip_open_def archive_at_def update_conv' fun_eq_iff split: option.splits)

lemma writestr_effect:
  assumes "writestr env h n c w = (r, w')"
  shows "calls w' = calls w" and "dirs w' = dirs w"
    and "r \<noteq> None \<Longrightarrow> w' = w"
    and "r = None \<Longrightarrow> \<exists>z. archive_at w h = Some z \<and> fp_open z \<and>
           archive_at w' = (archive_at w)(h \<mapsto> z\<lparr>entries := entries z @ [(n, c)]\<rparr>)"
  using assms
  by (auto simp: writestr_def archive_at_def update_conv' fun_eq_iff split: option.splits if_splits)



section \<open>The writer, step by step\<close>

lemma start_new_zip_progress:
  assumes "start_new_zip env d fs st = out"
  shows "processed_files (session_progress (state_of out)) = processed_files (session_progress st)"
    and "total_files (session_progress (state_of out)) = total_files (session_progress st)"
    and "calls (world (state_of out)) = calls (world st)"
    and "dirs (world (state_of out)) = dirs (world st)"
proof -
  have c: "zip_close env h (world st) = (r, w1) \<Longrightarrow> calls w1 = calls (world st) \<and> dirs w1 = dirs (world st)" for h r w1
    using zip_close_effect(1,2) by blast
  have o: "zip_open env p w1 = Inr w2 \<Longrightarrow> calls w2 = calls w1 \<and> dirs w2 = dirs w1" for p w1 w2
    using zip_open_effect(1,2) by blast
  show "processed_files (session_progress (state_of out)) = processed_files (session_progress st)"
    and "total_files (session_progress (state_of out)) = total_files (session_progress st)"
    using assms
    by (auto simp: start_new_zip_def Let_def split: option.splits sum.splits if_splits prod.splits)
  show "calls (world (state_of out)) = calls (world st)"
    using assms
    by (auto simp: start_new_zip_def Let_def dest!: c o split: option.splits sum.splits if_splits prod.splits)
  show "dirs (world (state_of out)) = dirs (world st)"
    using assms
    by (auto simp: start_new_zip_def Let_def dest!: c o split: option.splits sum.splits if_splits prod.splits)
qed

text \<open>What the inner try block changes.\<close>

lemma fetch_and_write_effect:
  assumes "fetch_and_write env f st = Some st'"
  shows "zip_writer st' = zip_writer st" and "zip_index st' = zip_index st"
    and "session_progress st' = session_progress st"
    and "calls (world st') = calls (world st) @ [media_request f]"
    and "dirs (world st') = dirs (world st)"
    and "(archive_at (world st') = archive_at (world st) \<and> current_zip_size st' = current_zip_size st)
       \<or> (\<exists>h z c. zip_writer st = Some h \<and> archive_at (world st) h = Some z \<and> fp_open z
             \<and> download_single_file (media env) f = Some (Inr (Some c)) \<and> c \<noteq> []
             \<and> archive_at (world st') =
                 (archive_at (world st))(h \<mapsto> z\<lparr>entries := entries z @ [(get_safe_filename f, c)]\<rparr>)
             \<and> current_zip_size st' = current_zip_size st + int (length c))"
proof -
  let ?st1 = "st\<lparr>world := (world st)\<lparr>calls := calls (world st) @ [media_request f]\<rparr>\<rparr>"
  have a1: "archive_at (world ?st1) = archive_at (world st)"
    by (simp add: archive_at_def fun_eq_iff)
  consider (skip) "st' = ?st1"
    | (wr) h c r w where "zip_writer st = Some h"
        "download_single_file (media env) f = Some (Inr (Some c))" "c \<noteq> []"
        "writestr env h (get_safe_filename f) c (world ?st1) = (r, w)"
        "r \<noteq> None \<longrightarrow> st' = ?st1\<lparr>world := w\<rparr>"
        "r = None \<longrightarrow> st' = ?st1\<lparr>current_zip_size := current_zip_size st + int (length c), world := w\<rparr>"
    using assms
    by (auto simp: fetch_and_write_def Let_def split: option.splits sum.splits if_splits prod.splits)
  note cases = this
  have shape: "\<exists>n w. st' = st\<lparr>current_zip_size := n, world := w\<rparr>"
  proof (cases rule: cases)
    case skip
    then have "st' = st\<lparr>current_zip_size := current_zip_size st,
        world := (world st)\<lparr>calls := calls (world st) @ [media_request f]\<rparr>\<rparr>" by simp
    then show ?thesis by blast
  next
    case (wr h c r w)
    show ?thesis
    proof (cases r)
      case None
      with wr(6) have "st' = st\<lparr>current_zip_size := current_zip_size st + int (length c),
        world := w\<rparr>" by simp
      then show ?thesis by blast
    next
      case (Some e)
      with wr(5) have "st' = st\<lparr>current_zip_size := current_zip_size st, world := w\<rparr>" by simp
      then show ?thesis by blast
    qed
  qed
  then show "zip_writer st' = zip_writer st" and "zip_index st' = zip_index st"
    and "session_progress st' = session_progress st"
    by auto
  show "calls (world st') = calls (world st) @ [media_request f]"
  proof (cases rule: cases)
    case skip then show ?thesis by simp
  next
    case (wr h c r w)
    from writestr_effect(1) [OF wr(4)] wr(5,6) show ?thesis by (cases r) auto
  qed
  show "dirs (world st') = dirs (world st)"
  proof (cases rule: cases)
    case skip then show ?thesis by simp
  next
    case (wr h c r w)
    from writestr_effect(2) [OF wr(4)] wr(5,6) show ?thesis by (cases r) auto
  qed
  show "(archive_at (world st') = archive_at (world st) \<and> current_zip_size st' = current_zip_size st)
       \<or> (\<exists>h z c. zip_writer st = Some h \<and> archive_at (world st) h = Some z \<and> fp_open z
             \<and> download_single_file (media env) f = Some (Inr (Some c)) \<and> c \<noteq> []
             \<and> archive_at (world st') =
                 (archive_at (world st))(h \<mapsto> z\<lparr>entries := entries z @ [(get_safe_filename f, c)]\<rparr>)
             \<and> current_zip_size st' = current_zip_size st + int (length c))"
  proof (cases rule: cases)
    case skip then show ?thesis using a1 by simp
  next
    case (wr h c r w)
    show ?thesis
    proof (cases r)
      case None
      from writestr_effect(4) [OF wr(4) None] obtain z where
        z: "archive_at (world ?st1) h = Some z" "fp_open z"
          "archive_at w = (archive_at (world ?st1))(h \<mapsto> z\<lparr>entries := entries z @ [(get_safe_filename f, c)]\<rparr>)"
        by blast
      have "st' = ?st1\<lparr>current_zip_size := current_zip_size st + int (length c), world := w\<rparr>"
        using wr(6) None by simp
      with z a1 wr(1,2,3) show ?thesis by auto
    next
      case (Some e)
      with writestr_effect(3) [OF wr(4)] wr(5) have "st' = ?st1" by simp
      then show ?thesis using a1 by simp
    qed
  qed
qed


lemma process_file_skip:
  "\<not> can_download f \<Longrightarrow>
   process_file env d i f st =
     Some (Normal (st\<lparr>session_progress := (session_progress st)\<lparr>processed_files := int i + 1\<rparr>\<rparr>))"
  by (simp add: process_file_def)

lemma process_file_Normal:
  assumes "process_file env d i f st = Some (Normal st')" and "can_download f"
  obtains st1 where "start_new_zip env d (file_size_of f) st = Normal st1"
    and "fetch_and_write env f
           (st1\<lparr>session_progress := (session_progress st1)
                  \<lparr>current_file := name f, processed_files := int i + 1\<rparr>\<rparr>) = Some st'"
  using assms by (auto simp: process_file_def split: outcome.splits option.splits)

lemma process_file_Raised:
  assumes "process_file env d i f st = Some (Raised e st')"
  shows "can_download f \<and> start_new_zip env d (file_size_of f) st = Raised e st'"
  using assms by (auto simp: process_file_def split: outcome.splits option.splits if_splits)

lemma process_file_processed:
  assumes "process_file env d i f st = Some (Normal st')"
  shows "processed_files (session_progress st') = int i + 1"
proof (cases "can_download f")
  case False
  with assms show ?thesis by (auto simp: process_file_skip)
next
  case True
  from process_file_Normal [OF assms True] obtain st1 where
    fw: "fetch_and_write env f
           (st1\<lparr>session_progress := (session_progress st1)
                  \<lparr>current_file := name f, processed_files := int i + 1\<rparr>\<rparr>) = Some st'"
    by blast
  from fetch_and_write_effect(3) [OF fw] show ?thesis by simp
qed

lemma process_file_total:
  assumes "process_file env d i f st = Some out"
  shows "total_files (session_progress (state_of out)) = total_files (session_progress st)"
proof (cases out)
  case (Normal st')
  show ?thesis
  proof (cases "can_download f")
    case False
    with assms Normal show ?thesis by (auto simp: process_file_skip)
  next
    case True
    from process_file_Normal [OF assms [unfolded Normal] True] obtain st1 where
      s: "start_new_zip env d (file_size_of f) st = Normal st1" and
      fw: "fetch_and_write env f
           (st1\<lparr>session_progress := (session_progress st1)
                  \<lparr>current_file := name f, processed_files := int i + 1\<rparr>\<rparr>) = Some st'"
      by blast
    from fetch_and_write_effect(3) [OF fw] start_new_zip_progress(2) [OF s] Normal
    show ?thesis by simp
  qed
next
  case (Raised e st')
  with assms process_file_Raised have "start_new_zip env d (file_size_of f) st = Raised e st'"
    by blast
  from start_new_zip_progress(2) [OF this] Raised show ?thesis by simp
qed

lemma process_file_Raised_processed:
  assumes "process_file env d i f st = Some (Raised e st')"
  shows "processed_files (session_progress st') = processed_files (session_progress st)"
proof -
  from assms process_file_Raised have "start_new_zip env d (file_size_of f) st = Raised e st'"
    by blast
  from start_new_zip_progress(1) [OF this] show ?thesis by simp
qed

lemma download_loop_append:
  "download_loop env d i (xs @ ys) st =
     (case download_loop env d i xs st of
        None \<Rightarrow> None
      | Some (Raised e s) \<Rightarrow> Some (Raised e s)
      | Some (Normal s) \<Rightarrow> download_loop env d (i + length xs) ys s)"
  by (induction xs arbitrary: i st) (auto split: option.splits outcome.splits)

lemma download_loop_Normal_processed:
  "download_loop env d i fs st = Some (Normal st') \<Longrightarrow> fs \<noteq> [] \<Longrightarrow>
   processed_files (session_progress st') = int (i + length fs)"
proof (induction fs arbitrary: i st)
  case Nil
  then show ?case by simp
next
  case (Cons f fs)
  from Cons.prems(1) obtain st1 where
    p: "process_file env d i f st = Some (Normal st1)" and
    l: "download_loop env d (Suc i) fs st1 = Some (Normal st')"
    by (auto split: option.splits outcome.splits)
  show ?case
  proof (cases "fs = []")
    case True
    with l have "st' = st1" by simp
    with process_file_processed [OF p] True show ?thesis by simp
  next
    case False
    from Cons.IH [OF l False] show ?thesis by simp
  qed
qed

lemma download_loop_processed_bound:
  "download_loop env d i fs st = Some out \<Longrightarrow>
   processed_files (session_progress (state_of out)) = processed_files (session_progress st)
   \<or> (int i < processed_files (session_progress (state_of out))
      \<and> processed_files (session_progress (state_of out)) \<le> int (i + length fs))"
proof (induction fs arbitrary: i st)
  case Nil
  then show ?case by auto
next
  case (Cons f fs)
  show ?case
  proof (cases "process_file env d i f st")
    case None
    with Cons.prems show ?thesis by simp
  next
    case (Some o1)
    show ?thesis
    proof (cases o1)
      case (Raised e st1)
      with Some Cons.prems have "out = Raised e st1" by simp
      with process_file_Raised_processed Some Raised show ?thesis by auto
    next
      case (Normal st1)
      with Some Cons.prems have l: "download_loop env d (Suc i) fs st1 = Some out" by simp
      from process_file_processed Some Normal
      have p1: "processed_files (session_progress st1) = int i + 1" by blast
      from Cons.IH [OF l] p1 show ?thesis by auto
    qed
  qed
qed

lemma download_loop_total:
  "download_loop env d i fs st = Some out \<Longrightarrow>
   total_files (session_progress (state_of out)) = total_files (session_progress st)"
proof (induction fs arbitrary: i st)
  case Nil
  then show ?case by auto
next
  case (Cons f fs)
  show ?case
  proof (cases "process_file env d i f st")
    case None
    with Cons.prems show ?thesis by simp
  next
    case (Some o1)
    show ?thesis
    proof (cases o1)
      case (Raised e st1)
      with Some Cons.prems have "out = Raised e st1" by simp
      with process_file_total [OF Some] Raised show ?thesis by auto
    next
      case (Normal st1)
      with Some Cons.prems have l: "download_loop env d (Suc i) fs st1 = Some out" by simp
      from Cons.IH [OF l] process_file_total [OF Some] Normal show ?thesis by simp
    qed
  qed
qed

lemma finally_close_progress:
  "session_progress (state_of (finally_close env out)) = session_progress (state_of out)"
  by (cases out) (auto simp: finally_close_def split: option.splits prod.splits)

lemma finally_close_Normal:
  "finally_close env out = Normal st' \<Longrightarrow> \<exists>st. out = Normal st"
  by (cases out) (auto simp: finally_close_def split: option.splits prod.splits)

section \<open>Progress counting\<close>

lemma download_to_zips_progress:
  assumes "download_to_zips env files jid p w = Some out"
  shows "total_files (session_progress (state_of out)) = total_files p"
    and "processed_files (session_progress (state_of out)) = processed_files p
         \<or> (0 < processed_files (session_progress (state_of out))
            \<and> processed_files (session_progress (state_of out)) \<le> int (length files))"
    and "\<forall>st. out = Normal st \<longrightarrow> files \<noteq> [] \<longrightarrow>
           processed_files (session_progress st) = int (length files)"
    and "\<forall>st. out = Normal st \<longrightarrow> files = [] \<longrightarrow>
           processed_files (session_progress st) = processed_files p"
proof -
  let ?d = "path_join ''downloads'' jid"
  consider (mk) e where "makedirs env ?d w = Inl e" "out = Raised e (initial_writer p w)"
    | (run) w1 out0 where "makedirs env ?d w = Inr w1"
        "download_loop env ?d 0 files (initial_writer p w1) = Some out0"
        "out = finally_close env out0"
    using assms by (auto simp: download_to_zips_def Let_def split: sum.splits option.splits)
  note cases = this
  have ip: "session_progress (initial_writer p w0) = p" for w0
    by (simp add: initial_writer_def)
  show "total_files (session_progress (state_of out)) = total_files p"
  proof (cases rule: cases)
    case (mk e) then show ?thesis by (simp add: ip)
  next
    case (run w1 out0)
    from download_loop_total [OF run(2)] run(3) show ?thesis
      by (simp add: finally_close_progress ip)
  qed
  show "processed_files (session_progress (state_of out)) = processed_files p
         \<or> (0 < processed_files (session_progress (state_of out))
            \<and> processed_files (session_progress (state_of out)) \<le> int (length files))"
  proof (cases rule: cases)
    case (mk e) then show ?thesis by (simp add: ip)
  next
    case (run w1 out0)
    from download_loop_processed_bound [OF run(2)] run(3) show ?thesis
      by (auto simp: finally_close_progress ip)
  qed
  show "\<forall>st. out = Normal st \<longrightarrow> files \<noteq> [] \<longrightarrow>
           processed_files (session_progress st) = int (length files)"
  proof (intro allI impI)
    fix st assume o: "out = Normal st" and ne: "files \<noteq> []"
    show "processed_files (session_progress st) = int (length files)"
    proof (cases rule: cases)
      case (mk e) with o show ?thesis by simp
    next
      case (run w1 out0)
      with o finally_close_Normal obtain st0 where o0: "out0 = Normal st0" by metis
      from download_loop_Normal_processed [OF run(2) [unfolded o0] ne]
      have "processed_files (session_progress st0) = int (length files)" by simp
      moreover have "session_progress (state_of out) = session_progress (state_of out0)"
        using run(3) by (simp add: finally_close_progress)
      ultimately show ?thesis using o o0 by simp
    qed
  qed
  show "\<forall>st. out = Normal st \<longrightarrow> files = [] \<longrightarrow>
           processed_files (session_progress st) = processed_files p"
  proof (intro allI impI)
    fix st assume o: "out = Normal st" and e: "files = []"
    show "processed_files (session_progress st) = processed_files p"
    proof (cases rule: cases)
      case (mk e) with o show ?thesis by simp
    next
      case (run w1 out0)
      with e have "out0 = Normal (initial_writer p w1)" by simp
      moreover have "session_progress (state_of out) = session_progress (state_of out0)"
        using run(3) by (simp add: finally_close_progress)
      ultimately show ?thesis using o by (simp add: ip)
    qed
  qed
qed

lemma start_download_session:
  assumes "start_download sid jid sessions = Some sessions'"
  shows "\<exists>s. map_of sessions' sid = Some s \<and> processed_files (progress s) = 0
           \<and> total_files (progress s) = 0 \<and> job_id s = jid \<and> token s \<noteq> None"
  using assms
  by (auto simp: start_download_def update_conv' split: option.splits)

lemma process_download_cases:
  assumes "process_download env s w = Some (s', w')"
  obtains (failed) "processed_files (progress s') = processed_files (progress s)"
      "total_files (progress s') = total_files (progress s)" "status (progress s') = Error"
  | (ran) files out where "snd (list_all_files (list_replies env)) = Some (Inr files)"
      "download_to_zips env (filter (\<lambda>f. mimeType f \<noteq> folder_type) files) (job_id s)
         ((progress s)\<lparr>total_files := int (length (filter (\<lambda>f. mimeType f \<noteq> folder_type) files)),
                       status := Downloading\<rparr>)
         (w\<lparr>calls := calls w @ fst (list_all_files (list_replies env))\<rparr>) = Some out"
      "progress s' = (session_progress (state_of out))
          \<lparr>status := (case out of Normal _ \<Rightarrow> Completed | Raised _ _ \<Rightarrow> Error),
           error := (case out of Normal _ \<Rightarrow> error (session_progress (state_of out))
                     | Raised e _ \<Rightarrow> str e)\<rparr>"
      "w' = world (state_of out)"
  using assms
  by (auto simp: process_download_def on_error_def Let_def
      split: option.splits sum.splits outcome.splits if_splits)

lemma process_download_counts:
  assumes p0: "processed_files (progress s) = 0" and t0: "total_files (progress s) = 0"
    and run: "process_download env s w = Some (s', w')"
  shows "0 \<le> processed_files (progress s')"
    and "processed_files (progress s') \<le> total_files (progress s')"
    and "status (progress s') = Completed \<longrightarrow>
           processed_files (progress s') = total_files (progress s')"
proof -
  have "0 \<le> processed_files (progress s')
    \<and> processed_files (progress s') \<le> total_files (progress s')
    \<and> (status (progress s') = Completed \<longrightarrow>
           processed_files (progress s') = total_files (progress s'))"
    using run
  proof (cases rule: process_download_cases)
    case failed
    with p0 t0 show ?thesis by simp
  next
    case (ran files out)
    let ?fs = "filter (\<lambda>f. mimeType f \<noteq> folder_type) files"
    note d = download_to_zips_progress [OF ran(2)]
    from d(1) have t: "total_files (progress s') = int (length ?fs)"
      using ran(3) by simp
    from d(2) p0 have b: "0 \<le> processed_files (progress s') \<and>
        processed_files (progress s') \<le> int (length ?fs)"
      using ran(3) by auto
    have c: "status (progress s') = Completed \<longrightarrow>
           processed_files (progress s') = int (length ?fs)"
    proof
      assume "status (progress s') = Completed"
      with ran(3) obtain st where o: "out = Normal st" by (cases out) auto
      show "processed_files (progress s') = int (length ?fs)"
      proof (cases "?fs = []")
        case True
        with d(4) o p0 ran(3) show ?thesis by simp
      next
        case False
        with d(3) o ran(3) show ?thesis by simp
      qed
    qed
    from t b c show ?thesis by simp
  qed
  then show "0 \<le> processed_files (progress s')"
    and "processed_files (progress s') \<le> total_files (progress s')"
    and "status (progress s') = Completed \<longrightarrow>
           processed_files (progress s') = total_files (progress s')"
    by simp_all
qed

lemma download_loop_prefix:
  assumes "download_loop env d 0 files st = Some (Normal st')" and "k \<le> length files"
  shows "\<exists>stk. download_loop env d 0 (take k files) st = Some (Normal stk)
           \<and> download_loop env d k (drop k files) stk = Some (Normal st')
           \<and> (0 < k \<longrightarrow> processed_files (session_progress stk) = int k)"
proof -
  have "download_loop env d 0 (take k files @ drop k files) st = Some (Normal st')"
    using assms(1) by simp
  then obtain stk where a: "download_loop env d 0 (take k files) st = Some (Normal stk)"
    and b: "download_loop env d (0 + length (take k files)) (drop k files) stk = Some (Normal st')"
    unfolding download_loop_append by (auto split: option.splits outcome.splits)
  have len: "length (take k files) = k" using assms(2) by simp
  have "0 < k \<longrightarrow> processed_files (session_progress stk) = int k"
  proof
    assume "0 < k"
    then have "take k files \<noteq> []" using assms(2) by auto
    from download_loop_Normal_processed [OF a this] len show
      "processed_files (session_progress stk) = int k" by simp
  qed
  with a b len show ?thesis by auto
qed

text \<open>
  Claim C3. Whenever the body of the loop ends normally for the record at index \<open>i\<close>,
  whether the record was skipped, fetched or failed, \<open>processed_files\<close> is \<open>i + 1\<close>. A loop
  that ends normally over an inventory has passed, for every \<open>k\<close> up to its length,
  through the state reached after the first \<open>k\<close> records, in which \<open>processed_files\<close> is
  \<open>k\<close> (for \<open>k > 0\<close>) and \<open>total_files\<close> is as before, and has continued from there with
  the remaining records at index \<open>k\<close>. For a job started by \<open>start_download\<close>, when
  \<open>process_download\<close> ends, \<open>processed_files\<close> is between zero and \<open>total_files\<close>, and equal
  to \<open>total_files\<close> when the status is \<^verbatim>\<open>completed\<close>.
\<close>

theorem processed_files_counting:
  "(process_file env d i f st = Some (Normal sta)
      \<longrightarrow> processed_files (session_progress sta) = int i + 1)
   \<and> (download_loop env d 0 files st = Some (Normal st')
      \<longrightarrow> (\<forall>k \<le> length files. \<exists>stk.
             download_loop env d 0 (take k files) st = Some (Normal stk)
           \<and> download_loop env d k (drop k files) stk = Some (Normal st')
           \<and> (0 < k \<longrightarrow> processed_files (session_progress stk) = int k)))
   \<and> (start_download sid jid sessions = Some sessions' \<and> map_of sessions' sid = Some s
       \<and> process_download env s w = Some (s', w')
      \<longrightarrow> 0 \<le> processed_files (progress s')
        \<and> processed_files (progress s') \<le> total_files (progress s')
        \<and> (status (progress s') = Completed
            \<longrightarrow> processed_files (progress s') = total_files (progress s')))"
proof (intro conjI impI allI)
  assume "process_file env d i f st = Some (Normal sta)"
  then show "processed_files (session_progress sta) = int i + 1"
    by (rule process_file_processed)
next
  fix k assume "download_loop env d 0 files st = Some (Normal st')" and "k \<le> length files"
  then show "\<exists>stk. download_loop env d 0 (take k files) st = Some (Normal stk)
           \<and> download_loop env d k (drop k files) stk = Some (Normal st')
           \<and> (0 < k \<longrightarrow> processed_files (session_progress stk) = int k)"
    by (rule download_loop_prefix)
next
  assume h: "start_download sid jid sessions = Some sessions' \<and> map_of sessions' sid = Some s
       \<and> process_download env s w = Some (s', w')"
  with start_download_session [of sid jid sessions sessions']
  have z: "processed_files (progress s) = 0" "total_files (progress s) = 0" by auto
  from h have r: "process_download env s w = Some (s', w')" by simp
  show "0 \<le> processed_files (progress s')"
    and "processed_files (progress s') \<le> total_files (progress s')"
    using process_download_counts(1,2) [OF z r] by simp_all
  assume "status (progress s') = Completed"
  with process_download_counts(3) [OF z r]
  show "processed_files (progress s') = total_files (progress s')" by simp
qed

section \<open>Per-file failures\<close>

text \<open>A file that is fetched but adds no entry.\<close>

lemma fetch_and_write_nothing:
  assumes "download_single_file (media env) f = Some r"
    and "r = Inr None \<or> (\<exists>e. r = Inl e) \<or> r = Inr (Some [])
         \<or> (\<exists>c h e. r = Inr (Some c) \<and> zip_writer st = Some h
              \<and> writestr_raises env h (get_safe_filename f) c = Some e)"
  shows "\<exists>st'. fetch_and_write env f st = Some st'
           \<and> archive_at (world st') = archive_at (world st)
           \<and> session_progress st' = session_progress st"
  using assms
  by (auto simp: fetch_and_write_def writestr_def archive_at_def Let_def
      split: option.splits sum.splits if_splits)



section \<open>Volume rollover\<close>

lemma format_03d_three:
  assumes "n < 1000"
  shows "format_03d n =
    [digit_char (n div 100), digit_char (n div 10 mod 10), digit_char (n mod 10)]"
proof -
  have z: "digit_char 0 = CHR ''0''" by (simp add: digit_char_def)
  consider "n < 10" | "10 \<le> n \<and> n < 100" | "100 \<le> n \<and> n < 1000"
    using assms by linarith
  then show ?thesis
  proof cases
    case 1
    then have "digits n = [digit_char n]" by (simp add: digits.simps [of n])
    with 1 show ?thesis by (simp add: format_03d_def z numeral_3_eq_3)
  next
    case 2
    then have a: "digits n = digits (n div 10) @ [digit_char (n mod 10)]"
      by (simp add: digits.simps [of n])
    from 2 have lt: "n div 10 < 10" by (simp add: less_mult_imp_div_less)
    then have b: "digits (n div 10) = [digit_char (n div 10)]"
      by (simp add: digits.simps [of "n div 10"])
    from 2 lt have "n div 100 = 0" "n div 10 mod 10 = n div 10" by simp_all
    with a b show ?thesis by (simp add: format_03d_def z)
  next
    case 3
    then have a: "digits n = digits (n div 10) @ [digit_char (n mod 10)]"
      by (simp add: digits.simps [of n])
    from 3 have "100 div 10 \<le> n div 10" by (intro div_le_mono) simp
    then have "\<not> n div 10 < 10" by simp
    then have b: "digits (n div 10) = digits (n div 10 div 10) @ [digit_char (n div 10 mod 10)]"
      by (simp add: digits.simps [of "n div 10"])
    have d: "n div 10 div 10 = n div 100" by (simp add: div_mult2_eq [symmetric])
    from 3 have "n div 100 < 10" by (simp add: less_mult_imp_div_less)
    then have c: "digits (n div 100) = [digit_char (n div 100)]"
      by (simp add: digits.simps [of "n div 100"])
    from a b c d show ?thesis by (simp add: format_03d_def)
  qed
qed

lemma format_03d_1: "format_03d (Suc 0) = ''001''"
  using format_03d_three [of "Suc 0"] by (simp add: digit_char_def)








section \<open>Running the writer on the sample inputs\<close>

lemmas sample_defs = sample_file_def sample_chunks_def sample_inventory_def sample_progress_def
  quiet_env_def empty_world_def full_disk_env_def sample_env_def sample_folder_def
  full_volume_writer_def

lemmas fetch_defs = download_single_file_def media_request_def is_google_apps_file_def
  google_apps_types_def

lemmas writer_defs = process_file_def start_new_zip_def fetch_and_write_def can_download_def
  file_size_of_def max_zip_size_def zip_open_def zip_close_def writestr_def initial_writer_def
  path_join_def Let_def archive_at_def

lemmas name_defs = get_safe_filename_refines spec_sanitize_def spec_extension_def
  invalid_chars_def

lemmas job_defs = process_download_def list_all_files_def no_token_def items_of_def
  download_to_zips_def makedirs_def finally_close_def folder_type_def on_error_def
  start_download_def auth_callback_def start_login_def new_session_def



theorem processed_files_counting_witness:
  "processed_files (session_progress (state_of (the
       (process_file sample_env ''downloads/job'' 0 (sample_file ''a'' (Some 3))
          (initial_writer sample_progress empty_world))))) = 1
   \<and> (\<exists>stk. download_loop sample_env ''downloads/job'' 0 (take 2 sample_inventory)
               (initial_writer sample_progress empty_world) = Some (Normal stk)
           \<and> processed_files (session_progress stk) = 2)
   \<and> total_files (progress (fst (the (process_download sample_env
         (the (map_of (the (start_download ''sid'' ''job''
            (auth_callback ''sid'' \<lparr>expired = False\<rparr> (start_login 0 ''sid'' ''st'' []))))
          ''sid'')) empty_world)))) = 3
   \<and> processed_files (progress (fst (the (process_download sample_env
         (the (map_of (the (start_download ''sid'' ''job''
            (auth_callback ''sid'' \<lparr>expired = False\<rparr> (start_login 0 ''sid'' ''st'' []))))
          ''sid'')) empty_world)))) = 3"
proof -
  let ?E = sample_env and ?d = "''downloads/job''"
  let ?S0 = "initial_writer sample_progress empty_world"
  let ?fa = "sample_file ''a'' (Some 3)"
  let ?ss = "auth_callback ''sid'' \<lparr>expired = False\<rparr> (start_login 0 ''sid'' ''st'' [])"
  let ?ss' = "the (start_download ''sid'' ''job'' ?ss)"
  let ?s = "the (map_of ?ss' ''sid'')"
  let ?r = "the (process_download ?E ?s empty_world)"
  have h1: "process_file ?E ?d 0 ?fa ?S0 =
      Some (Normal (state_of (the (process_file ?E ?d 0 ?fa ?S0))))"
    by (simp add: sample_defs fetch_defs writer_defs name_defs format_03d_1)
  have h2: "download_loop ?E ?d 0 sample_inventory ?S0 =
      Some (Normal (state_of (the (download_loop ?E ?d 0 sample_inventory ?S0))))"
    by (simp add: sample_defs fetch_defs writer_defs name_defs format_03d_1)
  have h3: "start_download ''sid'' ''job'' ?ss = Some ?ss' \<and> map_of ?ss' ''sid'' = Some ?s"
    by (simp add: job_defs)
  have h4: "process_download ?E ?s empty_world = Some (fst ?r, snd ?r)
      \<and> status (progress (fst ?r)) = Completed \<and> total_files (progress (fst ?r)) = 3"
    by (simp add: job_defs sample_defs fetch_defs writer_defs name_defs format_03d_1)
  note t = processed_files_counting
    [where env = ?E and d = ?d and i = 0 and f = ?fa and st = ?S0
       and sta = "state_of (the (process_file ?E ?d 0 ?fa ?S0))"
       and files = sample_inventory
       and st' = "state_of (the (download_loop ?E ?d 0 sample_inventory ?S0))"
       and sid = "''sid''" and jid = "''job''" and sessions = ?ss and sessions' = ?ss'
       and s = ?s and w = empty_world and s' = "fst ?r" and w' = "snd ?r"]
  have "processed_files (session_progress (state_of (the (process_file ?E ?d 0 ?fa ?S0))))
      = int 0 + 1"
    using t h1 by blast
  then have a1: "processed_files (session_progress (state_of (the (process_file ?E ?d 0 ?fa ?S0))))
      = 1" by simp
  have "\<forall>k \<le> length sample_inventory. \<exists>stk.
          download_loop ?E ?d 0 (take k sample_inventory) ?S0 = Some (Normal stk)
        \<and> download_loop ?E ?d k (drop k sample_inventory) stk =
            Some (Normal (state_of (the (download_loop ?E ?d 0 sample_inventory ?S0))))
        \<and> (0 < k \<longrightarrow> processed_files (session_progress stk) = int k)"
    using t h2 by blast
  moreover have "2 \<le> length sample_inventory" by (simp add: sample_inventory_def)
  ultimately obtain stk where
    "download_loop ?E ?d 0 (take 2 sample_inventory) ?S0 = Some (Normal stk)"
    "0 < (2::nat) \<longrightarrow> processed_files (session_progress stk) = int 2"
    by blast
  then have a2: "\<exists>stk. download_loop ?E ?d 0 (take 2 sample_inventory) ?S0 = Some (Normal stk)
           \<and> processed_files (session_progress stk) = 2"
    by auto
  have "status (progress (fst ?r)) = Completed
      \<longrightarrow> processed_files (progress (fst ?r)) = total_files (progress (fst ?r))"
    using t h3 h4 by blast
  with h4 have a3: "total_files (progress (fst ?r)) = 3"
    and a4: "processed_files (progress (fst ?r)) = 3"
    by simp_all
  from a1 a2 a3 a4 show ?thesis by blast
qed


section \<open>Volumes are closed on every exit\<close>

text \<open>
  The archives as \<open>start_new_zip\<close> leaves them when it closes the volume held: that
  volume released, every other archive as it was.
\<close>

lemma start_new_zip_cases:
  assumes "start_new_zip env d fs st = out"
  obtains (keep) "out = Normal st"
  | (fail) e w1 where "out = Raised e (st\<lparr>world := w1\<rparr>)"
      "archive_at w1 = (\<lambda>p. if zip_writer st = Some p
          then map_option (\<lambda>z. z\<lparr>fp_open := False\<rparr>) (archive_at (world st) p)
          else archive_at (world st) p)"
      "calls w1 = calls (world st)"
  | (roll) w1 w2 zip_filename where
      "zip_filename = ''drive_backup_'' @ format_03d (zip_index st) @ ''.zip''"
      "out = Normal (st\<lparr>zip_writer := Some (path_join d zip_filename),
                         current_zip_size := 0,
                         zip_index := zip_index st + 1,
                         session_progress := (session_progress st)
                           \<lparr>zip_files := zip_files (session_progress st) @ [zip_filename]\<rparr>,
                         world := w2\<rparr>)"
      "archive_at w1 = (\<lambda>p. if zip_writer st = Some p
          then map_option (\<lambda>z. z\<lparr>fp_open := False\<rparr>) (archive_at (world st) p)
          else archive_at (world st) p)"
      "archive_at w2 = (archive_at w1)(path_join d zip_filename \<mapsto> \<lparr>entries = [], fp_open = True\<rparr>)"
      "calls w2 = calls (world st)"
proof (cases "zip_writer st = None \<or> current_zip_size st + fs > max_zip_size")
  case False
  with assms have "out = Normal st" by (simp add: start_new_zip_def)
  then show ?thesis by (rule keep)
next
  case True
  obtain r w1 where c: "(case zip_writer st of None \<Rightarrow> (None, world st)
              | Some h \<Rightarrow> zip_close env h (world st)) = (r, w1)"
    by (cases "(case zip_writer st of None \<Rightarrow> (None, world st)
              | Some h \<Rightarrow> zip_close env h (world st))") auto
  have w1: "archive_at w1 = (\<lambda>p. if zip_writer st = Some p
      then map_option (\<lambda>z. z\<lparr>fp_open := False\<rparr>) (archive_at (world st) p)
      else archive_at (world st) p)" and c1: "calls w1 = calls (world st)"
  proof -
    show "archive_at w1 = (\<lambda>p. if zip_writer st = Some p
      then map_option (\<lambda>z. z\<lparr>fp_open := False\<rparr>) (archive_at (world st) p)
      else archive_at (world st) p)"
    proof (cases "zip_writer st")
      case None
      with c show ?thesis by auto
    next
      case (Some h)
      with c have "zip_close env h (world st) = (r, w1)" by simp
      from zip_close_effect(3) [OF this] Some show ?thesis by (auto simp: fun_eq_iff)
    qed
    show "calls w1 = calls (world st)"
    proof (cases "zip_writer st")
      case None
      with c show ?thesis by auto
    next
      case (Some h)
      with c have "zip_close env h (world st) = (r, w1)" by simp
      from zip_close_effect(1) [OF this] show ?thesis .
    qed
  qed
  let ?n = "''drive_backup_'' @ format_03d (zip_index st) @ ''.zip''"
  show ?thesis
  proof (cases r)
    case (Some e)
    with assms True c have "out = Raised e (st\<lparr>world := w1\<rparr>)"
      by (simp add: start_new_zip_def)
    then show ?thesis using w1 c1 by (rule fail)
  next
    case None
    show ?thesis
    proof (cases "zip_open env (path_join d ?n) w1")
      case (Inl e)
      with assms True c None have "out = Raised e (st\<lparr>world := w1\<rparr>)"
        by (simp add: start_new_zip_def Let_def)
      then show ?thesis using w1 c1 by (rule fail)
    next
      case (Inr w2)
      with assms True c None have o: "out = Normal (st\<lparr>zip_writer := Some (path_join d ?n),
                         current_zip_size := 0,
                         zip_index := zip_index st + 1,
                         session_progress := (session_progress st)
                           \<lparr>zip_files := zip_files (session_progress st) @ [?n]\<rparr>,
                         world := w2\<rparr>)"
        by (simp add: start_new_zip_def Let_def)
      from zip_open_effect(1,3) [OF Inr] c1
      have "archive_at w2 = (archive_at w1)(path_join d ?n \<mapsto> \<lparr>entries = [], fp_open = True\<rparr>)"
        and "calls w2 = calls (world st)" by simp_all
      with o w1 show ?thesis by (intro roll [of ?n w2 w1]) simp_all
    qed
  qed
qed





lemma finally_close_state:
  obtains (none) "zip_writer (state_of out) = None" "state_of (finally_close env out) = state_of out"
  | (closed) h r w where "zip_writer (state_of out) = Some h"
      "zip_close env h (world (state_of out)) = (r, w)"
      "state_of (finally_close env out) = (state_of out)\<lparr>world := w\<rparr>"
proof (cases "zip_writer (state_of out)")
  case None
  then have "state_of (finally_close env out) = state_of out"
    by (simp add: finally_close_def)
  with None show ?thesis by (rule none)
next
  case (Some h)
  obtain r w where c: "zip_close env h (world (state_of out)) = (r, w)"
    by (cases "zip_close env h (world (state_of out))") auto
  with Some have "state_of (finally_close env out) = (state_of out)\<lparr>world := w\<rparr>"
    by (cases out; cases r) (simp_all add: finally_close_def)
  with Some c show ?thesis by (rule closed)
qed


lemma makedirs_effect:
  assumes "makedirs env p w = Inr w'"
  shows "archive_at w' = archive_at w" and "calls w' = calls w"
    and "makedirs_raises env p = None"
  using assms by (auto simp: makedirs_def archive_at_def fun_eq_iff split: option.splits)



lemma download_to_zips_cases:
  assumes "download_to_zips env files jid p w = Some out"
  obtains (mk) e where "makedirs env (path_join ''downloads'' jid) w = Inl e"
      "out = Raised e (initial_writer p w)"
  | (run) w1 out0 where "makedirs env (path_join ''downloads'' jid) w = Inr w1"
      "download_loop env (path_join ''downloads'' jid) 0 files (initial_writer p w1) = Some out0"
      "out = finally_close env out0"
  using assms by (auto simp: download_to_zips_def Let_def split: sum.splits option.splits)


section \<open>A listed volume without entries\<close>

lemma start_new_zip_first:
  assumes "zip_writer st = None"
    and "zip_open_raises env
           (path_join d (''drive_backup_'' @ format_03d (zip_index st) @ ''.zip'')) = None"
  shows "\<exists>st1. start_new_zip env d fs st = Normal st1
     \<and> zip_writer st1 =
         Some (path_join d (''drive_backup_'' @ format_03d (zip_index st) @ ''.zip''))
     \<and> zip_files (session_progress st1) =
         zip_files (session_progress st)
           @ [''drive_backup_'' @ format_03d (zip_index st) @ ''.zip'']
     \<and> archive_at (world st1)
           (path_join d (''drive_backup_'' @ format_03d (zip_index st) @ ''.zip'')) =
         Some \<lparr>entries = [], fp_open = True\<rparr>
     \<and> calls (world st1) = calls (world st)"
  using assms
  by (simp add: start_new_zip_def zip_open_def Let_def archive_at_def update_conv')

text \<open>
  Claim C10. For an inventory of one downloadable file whose fetch returns absent or
  raises, with the job directory and the first volume created without error, the writer
  ends with the name \<^verbatim>\<open>drive_backup_001.zip\<close> appended to the volumes list while the
  archive of that name, closed, has no entry; the content request was sent.
\<close>

theorem empty_volume_listed:
  "can_download f
   \<and> makedirs_raises env (path_join ''downloads'' jid) = None
   \<and> zip_open_raises env
        (path_join (path_join ''downloads'' jid) ''drive_backup_001.zip'') = None
   \<and> (download_single_file (media env) f = Some (Inr None)
      \<or> download_single_file (media env) f = Some (Inl e))
   \<longrightarrow> (\<exists>out. download_to_zips env [f] jid p w = Some out
          \<and> zip_files (session_progress (state_of out)) = zip_files p @ [''drive_backup_001.zip'']
          \<and> archive_at (world (state_of out))
                (path_join (path_join ''downloads'' jid) ''drive_backup_001.zip'') =
              Some \<lparr>entries = [], fp_open = False\<rparr>
          \<and> calls (world (state_of out)) = calls w @ [media_request f])"
proof
  assume h: "can_download f
   \<and> makedirs_raises env (path_join ''downloads'' jid) = None
   \<and> zip_open_raises env
        (path_join (path_join ''downloads'' jid) ''drive_backup_001.zip'') = None
   \<and> (download_single_file (media env) f = Some (Inr None)
      \<or> download_single_file (media env) f = Some (Inl e))"
  define d where "d = path_join ''downloads'' jid"
  let ?v = "path_join d ''drive_backup_001.zip''"
  from h have cd: "can_download f" and mkr: "makedirs_raises env d = None"
    and opr: "zip_open_raises env ?v = None"
    by (simp_all add: d_def)
  from h obtain r where r: "download_single_file (media env) f = Some r"
    and n: "r = Inr None \<or> (\<exists>e. r = Inl e)" by auto
  from mkr obtain w1 where mk: "makedirs env d w = Inr w1"
    by (auto simp: makedirs_def)
  note m = makedirs_effect [OF mk]
  let ?s0 = "initial_writer p w1"
  have i0: "zip_writer ?s0 = None" "zip_index ?s0 = Suc 0" "session_progress ?s0 = p"
    "world ?s0 = w1"
    by (simp_all add: initial_writer_def)
  from start_new_zip_first [of ?s0 env d "file_size_of f"] i0 opr obtain s1 where
    s1: "start_new_zip env d (file_size_of f) ?s0 = Normal s1"
    and s1w: "zip_writer s1 = Some ?v"
    and s1f: "zip_files (session_progress s1) = zip_files p @ [''drive_backup_001.zip'']"
    and s1a: "archive_at (world s1) ?v = Some \<lparr>entries = [], fp_open = True\<rparr>"
    and s1c: "calls (world s1) = calls w1"
    by (auto simp: format_03d_1)
  let ?s1 = "s1\<lparr>session_progress := (session_progress s1)
                  \<lparr>current_file := name f, processed_files := int 0 + 1\<rparr>\<rparr>"
  have n': "r = Inr None \<or> (\<exists>e. r = Inl e) \<or> r = Inr (Some [])
         \<or> (\<exists>c h e. r = Inr (Some c) \<and> zip_writer ?s1 = Some h
              \<and> writestr_raises env h (get_safe_filename f) c = Some e)"
    using n by blast
  from fetch_and_write_nothing [OF r n'] obtain s2 where
    fw: "fetch_and_write env f ?s1 = Some s2"
    and s2a: "archive_at (world s2) = archive_at (world ?s1)"
    and s2p: "session_progress s2 = session_progress ?s1"
    by blast
  note e = fetch_and_write_effect(1,4) [OF fw]
  have pf: "process_file env d 0 f ?s0 = Some (Normal s2)"
    using cd s1 fw by (simp add: process_file_def)
  then have loop: "download_loop env d 0 [f] ?s0 = Some (Normal s2)" by simp
  have s2w: "zip_writer s2 = Some ?v" using e(1) s1w by simp
  obtain rc w5 where cl: "zip_close env ?v (world s2) = (rc, w5)"
    by (cases "zip_close env ?v (world s2)") auto
  have st: "state_of (finally_close env (Normal s2)) = s2\<lparr>world := w5\<rparr>"
    using cl s2w by (cases rc) (simp_all add: finally_close_def)
  have res: "download_to_zips env [f] jid p w = Some (finally_close env (Normal s2))"
    using mk loop by (simp add: download_to_zips_def d_def)
  have a1: "zip_files (session_progress (s2\<lparr>world := w5\<rparr>)) = zip_files p @ [''drive_backup_001.zip'']"
    using s2p s1f by simp
  have a2: "archive_at (world (s2\<lparr>world := w5\<rparr>)) ?v = Some \<lparr>entries = [], fp_open = False\<rparr>"
    using zip_close_effect(3) [OF cl] s2a s1a by simp
  have a3: "calls (world (s2\<lparr>world := w5\<rparr>)) = calls w @ [media_request f]"
    using zip_close_effect(1) [OF cl] e(2) s1c m(2) by simp
  from res st a1 a2 a3 show "\<exists>out. download_to_zips env [f] jid p w = Some out
          \<and> zip_files (session_progress (state_of out)) = zip_files p @ [''drive_backup_001.zip'']
          \<and> archive_at (world (state_of out))
                (path_join (path_join ''downloads'' jid) ''drive_backup_001.zip'') =
              Some \<lparr>entries = [], fp_open = False\<rparr>
          \<and> calls (world (state_of out)) = calls w @ [media_request f]"
    by (simp add: d_def)
qed

section \<open>What the writer requests and writes\<close>

lemma start_new_zip_entries:
  assumes "start_new_zip env d fs st = out"
  shows "\<forall>p z e. archive_at (world (state_of out)) p = Some z \<and> e \<in> set (entries z)
      \<longrightarrow> (\<exists>z0. archive_at (world st) p = Some z0 \<and> e \<in> set (entries z0))"
  using assms
proof (cases rule: start_new_zip_cases)
  case keep
  then show ?thesis by simp
next
  case (fail e w1)
  have a: "archive_at w1 p = Some z \<and> x \<in> set (entries z)
      \<longrightarrow> (\<exists>z0. archive_at (world st) p = Some z0 \<and> x \<in> set (entries z0))" for p z x
    using fail(2) by (auto split: if_splits)
  have w: "world (state_of out) = w1" using fail(1) by simp
  show ?thesis unfolding w using a by blast
next
  case (roll w1 w2 zip_filename)
  have a: "archive_at w1 p = Some z \<and> x \<in> set (entries z)
      \<longrightarrow> (\<exists>z0. archive_at (world st) p = Some z0 \<and> x \<in> set (entries z0))" for p z x
    using roll(3) by (auto split: if_splits)
  have "archive_at w2 p = Some z \<and> x \<in> set (entries z)
      \<longrightarrow> archive_at w1 p = Some z" for p z x
    using roll(4) by (auto split: if_splits)
  with a have b: "archive_at w2 p = Some z \<and> x \<in> set (entries z)
      \<longrightarrow> (\<exists>z0. archive_at (world st) p = Some z0 \<and> x \<in> set (entries z0))" for p z x
    by blast
  have w: "world (state_of out) = w2" using roll(2) by simp
  show ?thesis unfolding w using b by blast
qed

lemma fetch_and_write_entries:
  assumes "fetch_and_write env f st = Some st'"
  shows "\<forall>p z e. archive_at (world st') p = Some z \<and> e \<in> set (entries z)
      \<longrightarrow> (\<exists>z0. archive_at (world st) p = Some z0 \<and> e \<in> set (entries z0))
          \<or> fst e = get_safe_filename f"
proof (intro allI impI)
  fix p z e
  assume a: "archive_at (world st') p = Some z \<and> e \<in> set (entries z)"
  from fetch_and_write_effect(6) [OF assms]
  consider (same) "archive_at (world st') = archive_at (world st)"
    | (wr) h z0 c where "archive_at (world st) h = Some z0"
        "archive_at (world st') =
           (archive_at (world st))(h \<mapsto> z0\<lparr>entries := entries z0 @ [(get_safe_filename f, c)]\<rparr>)"
    by blast
  then show "(\<exists>z0. archive_at (world st) p = Some z0 \<and> e \<in> set (entries z0))
          \<or> fst e = get_safe_filename f"
  proof cases
    case same
    with a show ?thesis by auto
  next
    case (wr h z0 c)
    show ?thesis
    proof (cases "p = h")
      case True
      with a wr(2) have "z = z0\<lparr>entries := entries z0 @ [(get_safe_filename f, c)]\<rparr>" by simp
      with a have "e \<in> set (entries z0) \<or> e = (get_safe_filename f, c)" by auto
      with wr(1) True show ?thesis by auto
    next
      case False
      with a wr(2) show ?thesis by auto
    qed
  qed
qed

text \<open>The footprint of one record, and of the loop over records of a set \<open>F\<close>.\<close>

lemma process_file_footprint:
  assumes run: "process_file env d i f st = Some out" and f: "f \<in> F"
  shows "\<exists>cs. calls (world (state_of out)) = calls (world st) @ cs
           \<and> set cs \<subseteq> media_request ` F"
    and "\<forall>p z e. archive_at (world (state_of out)) p = Some z \<and> e \<in> set (entries z)
      \<longrightarrow> (\<exists>z0. archive_at (world st) p = Some z0 \<and> e \<in> set (entries z0))
          \<or> (\<exists>g \<in> F. fst e = get_safe_filename g)"
proof -
  consider (skip) "out = Normal (st\<lparr>session_progress :=
        (session_progress st)\<lparr>processed_files := int i + 1\<rparr>\<rparr>)"
    | (raised) e st1 where "out = Raised e st1"
        "start_new_zip env d (file_size_of f) st = Raised e st1"
    | (fetched) st1 st2 where "out = Normal st2"
        "start_new_zip env d (file_size_of f) st = Normal st1"
        "fetch_and_write env f (st1\<lparr>session_progress := (session_progress st1)
                  \<lparr>current_file := name f, processed_files := int i + 1\<rparr>\<rparr>) = Some st2"
  proof (cases out)
    case (Raised e st1)
    with run process_file_Raised have "start_new_zip env d (file_size_of f) st = Raised e st1"
      by blast
    with Raised show ?thesis by (rule raised)
  next
    case (Normal st2)
    show ?thesis
    proof (cases "can_download f")
      case False
      with run Normal have "out = Normal (st\<lparr>session_progress :=
        (session_progress st)\<lparr>processed_files := int i + 1\<rparr>\<rparr>)"
        by (simp add: process_file_skip)
      then show ?thesis by (rule skip)
    next
      case True
      from process_file_Normal [OF run [unfolded Normal] True] Normal show ?thesis
        using fetched by blast
    qed
  qed
  note cases = this
  show "\<exists>cs. calls (world (state_of out)) = calls (world st) @ cs
           \<and> set cs \<subseteq> media_request ` F"
  proof (cases rule: cases)
    case skip
    then show ?thesis by simp
  next
    case (raised e st1)
    from start_new_zip_progress(3) [OF raised(2)] raised(1) show ?thesis by simp
  next
    case (fetched st1 st2)
    from start_new_zip_progress(3) [OF fetched(2)] fetch_and_write_effect(4) [OF fetched(3)]
    have "calls (world st2) = calls (world st) @ [media_request f]" by simp
    with fetched(1) f show ?thesis by auto
  qed
  show "\<forall>p z e. archive_at (world (state_of out)) p = Some z \<and> e \<in> set (entries z)
      \<longrightarrow> (\<exists>z0. archive_at (world st) p = Some z0 \<and> e \<in> set (entries z0))
          \<or> (\<exists>g \<in> F. fst e = get_safe_filename g)"
  proof (cases rule: cases)
    case skip
    then show ?thesis by simp
  next
    case (raised e st1)
    have so: "state_of out = st1" using raised(1) by simp
    show ?thesis unfolding so
      using start_new_zip_entries [OF raised(2), unfolded state_of.simps] by blast
  next
    case (fetched st1 st2)
    note a = start_new_zip_entries [OF fetched(2)]
    have ws: "world (st1\<lparr>session_progress := (session_progress st1)
                  \<lparr>current_file := name f, processed_files := int i + 1\<rparr>\<rparr>) = world st1"
      by simp
    note b = fetch_and_write_entries [OF fetched(3), unfolded ws]
    show ?thesis
    proof (intro allI impI)
      fix p z e
      assume "archive_at (world (state_of out)) p = Some z \<and> e \<in> set (entries z)"
      with fetched(1) have "archive_at (world st2) p = Some z \<and> e \<in> set (entries z)" by simp
      with b have "(\<exists>z0. archive_at (world st1) p = Some z0 \<and> e \<in> set (entries z0))
          \<or> fst e = get_safe_filename f" by blast
      with a f show "(\<exists>z0. archive_at (world st) p = Some z0 \<and> e \<in> set (entries z0))
          \<or> (\<exists>g \<in> F. fst e = get_safe_filename g)"
        by (metis state_of.simps(1))
    qed
  qed
qed

lemma download_loop_footprint:
  "download_loop env d i files st = Some out \<Longrightarrow> set files \<subseteq> F \<Longrightarrow>
   (\<exists>cs. calls (world (state_of out)) = calls (world st) @ cs \<and> set cs \<subseteq> media_request ` F)
   \<and> (\<forall>p z e. archive_at (world (state_of out)) p = Some z \<and> e \<in> set (entries z)
      \<longrightarrow> (\<exists>z0. archive_at (world st) p = Some z0 \<and> e \<in> set (entries z0))
          \<or> (\<exists>g \<in> F. fst e = get_safe_filename g))"
proof (induction files arbitrary: i st)
  case Nil
  from Nil.prems(1) have "out = Normal st" by simp
  then show ?case by simp
next
  case (Cons f files)
  from Cons.prems(2) have f: "f \<in> F" and fs: "set files \<subseteq> F" by simp_all
  show ?case
  proof (cases "process_file env d i f st")
    case None
    with Cons.prems(1) show ?thesis by simp
  next
    case (Some o1)
    note fp = process_file_footprint [OF Some f]
    show ?thesis
    proof (cases o1)
      case (Raised e st1)
      with Some Cons.prems(1) have "out = o1" by simp
      with fp show ?thesis by simp
    next
      case (Normal st1)
      with Some Cons.prems(1) have l: "download_loop env d (Suc i) files st1 = Some out" by simp
      note ih = Cons.IH [OF l fs]
      from fp(1) Normal obtain cs1 where c1: "calls (world st1) = calls (world st) @ cs1"
        "set cs1 \<subseteq> media_request ` F" by auto
      from ih obtain cs2 where c2: "calls (world (state_of out)) = calls (world st1) @ cs2"
        "set cs2 \<subseteq> media_request ` F" by blast
      have A: "\<exists>cs. calls (world (state_of out)) = calls (world st) @ cs
          \<and> set cs \<subseteq> media_request ` F"
        using c1 c2 by (intro exI [of _ "cs1 @ cs2"]) simp
      have B: "\<forall>p z e. archive_at (world (state_of out)) p = Some z \<and> e \<in> set (entries z)
        \<longrightarrow> (\<exists>z0. archive_at (world st) p = Some z0 \<and> e \<in> set (entries z0))
          \<or> (\<exists>g \<in> F. fst e = get_safe_filename g)"
      proof (intro allI impI)
        fix p z e
        assume "archive_at (world (state_of out)) p = Some z \<and> e \<in> set (entries z)"
        with ih have "(\<exists>z0. archive_at (world st1) p = Some z0 \<and> e \<in> set (entries z0))
          \<or> (\<exists>g \<in> F. fst e = get_safe_filename g)" by blast
        with fp(2) Normal show "(\<exists>z0. archive_at (world st) p = Some z0 \<and> e \<in> set (entries z0))
          \<or> (\<exists>g \<in> F. fst e = get_safe_filename g)"
          by (metis state_of.simps(1))
      qed
      from A B show ?thesis by simp
    qed
  qed
qed

lemma finally_close_footprint:
  "calls (world (state_of (finally_close env out))) = calls (world (state_of out))"
  "archive_at (world (state_of (finally_close env out))) p = Some z
     \<Longrightarrow> \<exists>z0. archive_at (world (state_of out)) p = Some z0 \<and> entries z0 = entries z"
proof -
  show "calls (world (state_of (finally_close env out))) = calls (world (state_of out))"
  proof (cases rule: finally_close_state [of out env])
    case none
    then show ?thesis by simp
  next
    case (closed h r w)
    from zip_close_effect(1) [OF closed(2)] closed(3) show ?thesis by simp
  qed
  assume a: "archive_at (world (state_of (finally_close env out))) p = Some z"
  show "\<exists>z0. archive_at (world (state_of out)) p = Some z0 \<and> entries z0 = entries z"
  proof (cases rule: finally_close_state [of out env])
    case none
    with a show ?thesis by simp
  next
    case (closed h r w)
    from zip_close_effect(3) [OF closed(2)] closed(3) a show ?thesis
      by (auto split: if_splits)
  qed
qed

lemma download_to_zips_footprint:
  assumes "download_to_zips env files jid p w = Some out"
  shows "\<exists>cs. calls (world (state_of out)) = calls w @ cs
           \<and> set cs \<subseteq> media_request ` set files"
    and "\<forall>q z e. archive_at (world (state_of out)) q = Some z \<and> e \<in> set (entries z)
      \<longrightarrow> (\<exists>z0. archive_at w q = Some z0 \<and> e \<in> set (entries z0))
          \<or> (\<exists>g \<in> set files. fst e = get_safe_filename g)"
proof -
  have "(\<exists>cs. calls (world (state_of out)) = calls w @ cs
           \<and> set cs \<subseteq> media_request ` set files)
    \<and> (\<forall>q z e. archive_at (world (state_of out)) q = Some z \<and> e \<in> set (entries z)
      \<longrightarrow> (\<exists>z0. archive_at w q = Some z0 \<and> e \<in> set (entries z0))
          \<or> (\<exists>g \<in> set files. fst e = get_safe_filename g))"
    using assms
  proof (cases rule: download_to_zips_cases)
    case (mk e)
    then show ?thesis by (simp add: initial_writer_def)
  next
    case (run w1 out0)
    note m = makedirs_effect [OF run(1)]
    have iw: "world (initial_writer p w1) = w1" by (simp add: initial_writer_def)
    note fp = download_loop_footprint [OF run(2) subset_refl, unfolded iw m(1) m(2)]
    from fp have l1: "\<exists>cs. calls (world (state_of out0)) = calls w @ cs
           \<and> set cs \<subseteq> media_request ` set files"
      by (rule conjunct1)
    from fp have l2: "\<forall>q z e. archive_at (world (state_of out0)) q = Some z \<and> e \<in> set (entries z)
      \<longrightarrow> (\<exists>z0. archive_at w q = Some z0 \<and> e \<in> set (entries z0))
          \<or> (\<exists>g \<in> set files. fst e = get_safe_filename g)"
      by (rule conjunct2)
    have A: "\<exists>cs. calls (world (state_of out)) = calls w @ cs
           \<and> set cs \<subseteq> media_request ` set files"
      using l1 run(3) by (simp add: finally_close_footprint(1))
    have B: "\<forall>q z e. archive_at (world (state_of out)) q = Some z \<and> e \<in> set (entries z)
      \<longrightarrow> (\<exists>z0. archive_at w q = Some z0 \<and> e \<in> set (entries z0))
          \<or> (\<exists>g \<in> set files. fst e = get_safe_filename g)"
    proof (intro allI impI)
      fix q z e
      assume a: "archive_at (world (state_of out)) q = Some z \<and> e \<in> set (entries z)"
      with run(3) finally_close_footprint(2) [of env out0 q z] obtain z1 where
        "archive_at (world (state_of out0)) q = Some z1" "entries z1 = entries z" by auto
      with a l2 show "(\<exists>z0. archive_at w q = Some z0 \<and> e \<in> set (entries z0))
          \<or> (\<exists>g \<in> set files. fst e = get_safe_filename g)"
        by metis
    qed
    from A B show ?thesis by simp
  qed
  then show "\<exists>cs. calls (world (state_of out)) = calls w @ cs
           \<and> set cs \<subseteq> media_request ` set files"
    and "\<forall>q z e. archive_at (world (state_of out)) q = Some z \<and> e \<in> set (entries z)
      \<longrightarrow> (\<exists>z0. archive_at w q = Some z0 \<and> e \<in> set (entries z0))
          \<or> (\<exists>g \<in> set files. fst e = get_safe_filename g)"
    by blast+
qed

section \<open>Folders are left out\<close>

lemma process_download_listed:
  assumes "token s = Some t" and "expired t \<longrightarrow> refresh_raises env = None"
    and "build_raises env = None"
    and "list_all_files (list_replies env) = (cs, Some (Inr files))"
    and "process_download env s w = Some (s', w')"
  shows "\<exists>out. download_to_zips env (filter (\<lambda>f. mimeType f \<noteq> folder_type) files) (job_id s)
           ((progress s)\<lparr>total_files := int (length (filter (\<lambda>f. mimeType f \<noteq> folder_type) files)),
                         status := Downloading\<rparr>)
           (w\<lparr>calls := calls w @ cs\<rparr>) = Some out
         \<and> w' = world (state_of out)
         \<and> total_files (progress s') = total_files (session_progress (state_of out))
         \<and> processed_files (progress s') = processed_files (session_progress (state_of out))"
  using assms
  by (auto simp: process_download_def on_error_def Let_def
      split: option.splits sum.splits outcome.splits if_splits)

text \<open>
  Claim C9. When the credential steps succeed and the listing returns \<open>files\<close>, the job
  ends with \<open>total_files\<close> equal to the number of records whose MIME type is not the
  folder type; \<open>processed_files\<close> is unchanged or at most that number; every content
  request sent after the listing requests is the request of a listed record that is not a
  folder; and every entry of every archive either was in that archive before the job or
  carries the sanitized name of a listed record that is not a folder.
\<close>

theorem folders_excluded:
  "token s = Some t \<and> (expired t \<longrightarrow> refresh_raises env = None) \<and> build_raises env = None
   \<and> list_all_files (list_replies env) = (cs, Some (Inr files))
   \<and> process_download env s w = Some (s', w')
   \<longrightarrow> total_files (progress s') = int (length (filter (\<lambda>f. mimeType f \<noteq> folder_type) files))
     \<and> (processed_files (progress s') = processed_files (progress s)
        \<or> (0 < processed_files (progress s')
           \<and> processed_files (progress s')
               \<le> int (length (filter (\<lambda>f. mimeType f \<noteq> folder_type) files))))
     \<and> (\<exists>ms. calls w' = calls w @ cs @ ms
           \<and> (\<forall>c \<in> set ms. \<exists>f \<in> set files. mimeType f \<noteq> folder_type \<and> c = media_request f))
     \<and> (\<forall>q z e. archive_at w' q = Some z \<and> e \<in> set (entries z)
           \<longrightarrow> (\<exists>z0. archive_at w q = Some z0 \<and> e \<in> set (entries z0))
             \<or> (\<exists>f \<in> set files. mimeType f \<noteq> folder_type \<and> fst e = get_safe_filename f))"
proof
  assume h: "token s = Some t \<and> (expired t \<longrightarrow> refresh_raises env = None) \<and> build_raises env = None
   \<and> list_all_files (list_replies env) = (cs, Some (Inr files))
   \<and> process_download env s w = Some (s', w')"
  let ?fs = "filter (\<lambda>f. mimeType f \<noteq> folder_type) files"
  let ?p = "(progress s)\<lparr>total_files := int (length ?fs), status := Downloading\<rparr>"
  let ?w1 = "w\<lparr>calls := calls w @ cs\<rparr>"
  from h process_download_listed [of s t env cs files w s' w'] obtain out where
    run: "download_to_zips env ?fs (job_id s) ?p ?w1 = Some out"
    and w': "w' = world (state_of out)"
    and tot: "total_files (progress s') = total_files (session_progress (state_of out))"
    and prc: "processed_files (progress s') = processed_files (session_progress (state_of out))"
    by blast
  note pr = download_to_zips_progress(1,2) [OF run]
  note fp = download_to_zips_footprint [OF run]
  have a1: "total_files (progress s') = int (length ?fs)"
    using tot pr(1) by simp
  have a2: "processed_files (progress s') = processed_files (progress s)
        \<or> (0 < processed_files (progress s') \<and> processed_files (progress s') \<le> int (length ?fs))"
    using prc pr(2) by simp
  have aw: "archive_at ?w1 = archive_at w" by (simp add: archive_at_def fun_eq_iff)
  from fp(1) obtain ms where ms: "calls (world (state_of out)) = calls ?w1 @ ms"
    "set ms \<subseteq> media_request ` set ?fs" by blast
  have a3: "\<exists>ms. calls w' = calls w @ cs @ ms
           \<and> (\<forall>c \<in> set ms. \<exists>f \<in> set files. mimeType f \<noteq> folder_type \<and> c = media_request f)"
  proof (intro exI [of _ ms] conjI ballI)
    show "calls w' = calls w @ cs @ ms" using ms(1) w' by simp
    fix c assume "c \<in> set ms"
    with ms(2) obtain f where "f \<in> set ?fs" "c = media_request f" by blast
    then show "\<exists>f \<in> set files. mimeType f \<noteq> folder_type \<and> c = media_request f" by auto
  qed
  have a4: "\<forall>q z e. archive_at w' q = Some z \<and> e \<in> set (entries z)
           \<longrightarrow> (\<exists>z0. archive_at w q = Some z0 \<and> e \<in> set (entries z0))
             \<or> (\<exists>f \<in> set files. mimeType f \<noteq> folder_type \<and> fst e = get_safe_filename f)"
  proof (intro allI impI)
    fix q z e
    assume "archive_at w' q = Some z \<and> e \<in> set (entries z)"
    with fp(2) [unfolded aw] w' have "(\<exists>z0. archive_at w q = Some z0 \<and> e \<in> set (entries z0))
          \<or> (\<exists>g \<in> set ?fs. fst e = get_safe_filename g)" by blast
    then show "(\<exists>z0. archive_at w q = Some z0 \<and> e \<in> set (entries z0))
             \<or> (\<exists>f \<in> set files. mimeType f \<noteq> folder_type \<and> fst e = get_safe_filename f)"
      by auto
  qed
  from a1 a2 a3 a4 show "total_files (progress s') = int (length ?fs)
     \<and> (processed_files (progress s') = processed_files (progress s)
        \<or> (0 < processed_files (progress s')
           \<and> processed_files (progress s') \<le> int (length ?fs)))
     \<and> (\<exists>ms. calls w' = calls w @ cs @ ms
           \<and> (\<forall>c \<in> set ms. \<exists>f \<in> set files. mimeType f \<noteq> folder_type \<and> c = media_request f))
     \<and> (\<forall>q z e. archive_at w' q = Some z \<and> e \<in> set (entries z)
           \<longrightarrow> (\<exists>z0. archive_at w q = Some z0 \<and> e \<in> set (entries z0))
             \<or> (\<exists>f \<in> set files. mimeType f \<noteq> folder_type \<and> fst e = get_safe_filename f))"
    by blast
qed

section \<open>Running the job on the sample inputs\<close>



theorem empty_volume_listed_witness:
  "\<exists>out. download_to_zips sample_env [sample_file ''c'' None] ''job'' sample_progress empty_world
       = Some out
     \<and> zip_files (session_progress (state_of out)) = [''drive_backup_001.zip'']
     \<and> archive_at (world (state_of out)) ''downloads/job/drive_backup_001.zip'' =
         Some \<lparr>entries = [], fp_open = False\<rparr>"
proof -
  have h: "can_download (sample_file ''c'' None)
   \<and> makedirs_raises sample_env (path_join ''downloads'' ''job'') = None
   \<and> zip_open_raises sample_env
        (path_join (path_join ''downloads'' ''job'') ''drive_backup_001.zip'') = None
   \<and> (download_single_file (media sample_env) (sample_file ''c'' None) = Some (Inr None)
      \<or> download_single_file (media sample_env) (sample_file ''c'' None) = Some (Inl (Exception [])))"
    by (simp add: sample_defs fetch_defs can_download_def)
  from empty_volume_listed
    [where f = "sample_file ''c'' None" and env = sample_env and jid = "''job''"
       and e = "Exception []" and p = sample_progress and w = empty_world] h
  obtain out where
    "download_to_zips sample_env [sample_file ''c'' None] ''job'' sample_progress empty_world
       = Some out"
    "zip_files (session_progress (state_of out)) =
       zip_files sample_progress @ [''drive_backup_001.zip'']"
    "archive_at (world (state_of out))
       (path_join (path_join ''downloads'' ''job'') ''drive_backup_001.zip'') =
       Some \<lparr>entries = [], fp_open = False\<rparr>"
    by blast
  then show ?thesis
    by (intro exI [of _ out]) (simp add: sample_progress_def path_join_def)
qed

theorem folders_excluded_witness:
  "total_files (progress (fst (the (process_download sample_env
       ((new_session 0)\<lparr>token := Some \<lparr>expired = False\<rparr>, job_id := ''job''\<rparr>) empty_world)))) = 3
   \<and> length (sample_inventory @ [sample_folder]) = 4
   \<and> media_request sample_folder
       \<notin> set (calls (snd (the (process_download sample_env
            ((new_session 0)\<lparr>token := Some \<lparr>expired = False\<rparr>, job_id := ''job''\<rparr>)
            empty_world))))"
proof -
  let ?s = "(new_session 0)\<lparr>token := Some \<lparr>expired = False\<rparr>, job_id := ''job''\<rparr>"
  let ?files = "sample_inventory @ [sample_folder]"
  have "\<exists>r. process_download sample_env ?s empty_world = Some r"
    by (simp add: sample_defs fetch_defs writer_defs name_defs job_defs format_03d_1)
  then obtain s' w' where r: "process_download sample_env ?s empty_world = Some (s', w')"
    by auto
  have h: "token ?s = Some \<lparr>expired = False\<rparr>
      \<and> (expired \<lparr>expired = False\<rparr> \<longrightarrow> refresh_raises sample_env = None)
      \<and> build_raises sample_env = None
      \<and> list_all_files (list_replies sample_env) = ([list_request None], Some (Inr ?files))"
    by (simp add: sample_defs job_defs)
  note t = folders_excluded
    [where s = ?s and t = "\<lparr>expired = False\<rparr>" and env = sample_env
       and cs = "[list_request None]" and files = ?files and w = empty_world
       and s' = s' and w' = w']
  from h r have hyp: "token ?s = Some \<lparr>expired = False\<rparr>
      \<and> (expired \<lparr>expired = False\<rparr> \<longrightarrow> refresh_raises sample_env = None)
      \<and> build_raises sample_env = None
      \<and> list_all_files (list_replies sample_env) = ([list_request None], Some (Inr ?files))
      \<and> process_download sample_env ?s empty_world = Some (s', w')"
    by (intro conjI) (rule conjunct1, assumption | rule conjunct2, assumption | assumption | blast)+
  note c = t [THEN mp, OF hyp]
  note a1 = c [THEN conjunct1]
  from c [THEN conjunct2, THEN conjunct2, THEN conjunct1]
  obtain ms where ms: "calls w' = calls empty_world @ [list_request None] @ ms"
    "\<forall>c \<in> set ms. \<exists>f \<in> set ?files. mimeType f \<noteq> folder_type \<and> c = media_request f"
    by (elim exE conjE)
  have n: "\<forall>f \<in> set ?files. mimeType f \<noteq> folder_type \<longrightarrow>
      media_request f \<noteq> media_request sample_folder"
    by (simp add: sample_defs fetch_defs folder_type_def)
  have "media_request sample_folder \<notin> set ms"
  proof
    assume "media_request sample_folder \<in> set ms"
    with ms(2) obtain f where "f \<in> set ?files" "mimeType f \<noteq> folder_type"
      "media_request sample_folder = media_request f" by blast
    with n show False by (metis)
  qed
  moreover have "media_request sample_folder \<noteq> list_request None"
    by (simp add: sample_defs fetch_defs folder_type_def list_request_def)
  ultimately have a3: "media_request sample_folder \<notin> set (calls w')"
    using ms(1) by (simp add: empty_world_def)
  from a1 have a1': "total_files (progress s') = 3"
    by (simp add: sample_defs folder_type_def)
  have a2: "length ?files = 4" by (simp add: sample_inventory_def)
  have e: "the (process_download sample_env ?s empty_world) = (s', w')"
    by (simp only: r option.sel)
  show ?thesis unfolding e fst_conv snd_conv
    using a1' a2 a3 by (intro conjI)
qed

section \<open>The retention sweep\<close>

text \<open>
  What one tick of \<open>cleanup_sessions\<close> removes and what it keeps, first for the removal
  of a directory tree, then for the second loop of the tick, then for the tick.
\<close>

lemma is_under_rstrip_sep: "is_under (rstrip_sep p) p"
proof -
  let ?P = "\<lambda>c. c = CHR ''/''"
  let ?t = "rev (takeWhile ?P (rev p))"
  have p: "p = rstrip_sep p @ ?t"
  proof -
    have "rev (dropWhile ?P (rev p)) @ rev (takeWhile ?P (rev p)) =
        rev (takeWhile ?P (rev p) @ dropWhile ?P (rev p))"
      by (simp only: rev_append)
    also have "\<dots> = rev (rev p)" by (simp only: takeWhile_dropWhile_id)
    finally show ?thesis by (simp add: rstrip_sep_def)
  qed
  have t: "\<forall>c \<in> set ?t. c = CHR ''/''"
    by (auto dest: set_takeWhileD)
  show ?thesis
  proof (cases ?t)
    case Nil
    with p have "p = rstrip_sep p" by simp
    then show ?thesis by (simp add: is_under_def)
  next
    case (Cons c cs)
    with t have "c = CHR ''/''" by simp
    with Cons p have "p = rstrip_sep p @ CHR ''/'' # cs" by simp
    then have "take (length (rstrip_sep p) + 1) p = rstrip_sep p @ ''/''"
      by (metis Suc_eq_plus1 append_Cons append_Nil append_eq_conv_conj length_append_singleton
          append.assoc)
    then show ?thesis by (simp add: is_under_def)
  qed
qed

lemma rmtree_effect:
  assumes "rmtree env p w = Inr w'"
  shows "dirs w' = filter (\<lambda>d. \<not> is_under (rstrip_sep p) d) (dirs w)"
    and "zips w' = filter (\<lambda>(q, z). \<not> is_under (rstrip_sep p) q) (zips w)"
  using assms by (auto simp: rmtree_def split: option.splits if_splits)

lemma rmtree_removes:
  assumes "rmtree env p w = Inr w'"
  shows "\<not> path_exists p w'"
proof -
  have "rstrip_sep p \<notin> set (dirs w')"
    using rmtree_effect(1) [OF assms] by (simp add: is_under_def)
  moreover have "p \<notin> fst ` set (zips w')"
    using rmtree_effect(2) [OF assms] is_under_rstrip_sep [of p] by auto
  ultimately show ?thesis by (simp add: path_exists_def)
qed

lemma rmtree_shrinks:
  assumes "rmtree env p w = Inr w'"
  shows "set (dirs w') \<subseteq> set (dirs w)" and "set (zips w') \<subseteq> set (zips w)"
  using rmtree_effect [OF assms] by auto

text \<open>One step of the second loop of a tick.\<close>

lemma remove_sessions_step:
  assumes "remove_sessions env (sid # rest) (ss, w) = (r, ss', w')"
  obtains (gone) "map_of ss sid = None" "remove_sessions env rest (ss, w) = (r, ss', w')"
  | (failed) s e where "map_of ss sid = Some s"
      "path_exists (path_join ''downloads'' (job_id s)) w"
      "rmtree env (path_join ''downloads'' (job_id s)) w = Inl e"
      "r = Some e" "ss' = ss" "w' = w"
  | (removed) s w1 where "map_of ss sid = Some s"
      "path_exists (path_join ''downloads'' (job_id s)) w"
      "rmtree env (path_join ''downloads'' (job_id s)) w = Inr w1"
      "remove_sessions env rest (AList.delete sid ss, w1) = (r, ss', w')"
  | (absent) s where "map_of ss sid = Some s"
      "\<not> path_exists (path_join ''downloads'' (job_id s)) w"
      "remove_sessions env rest (AList.delete sid ss, w) = (r, ss', w')"
proof (cases "map_of ss sid")
  case None
  with assms have "remove_sessions env rest (ss, w) = (r, ss', w')" by simp
  with None show ?thesis by (rule gone)
next
  case (Some s)
  let ?jd = "path_join ''downloads'' (job_id s)"
  show ?thesis
  proof (cases "path_exists ?jd w")
    case False
    with assms Some have "remove_sessions env rest (AList.delete sid ss, w) = (r, ss', w')"
      by (simp add: Let_def)
    with Some False show ?thesis by (rule absent)
  next
    case True
    show ?thesis
    proof (cases "rmtree env ?jd w")
      case (Inl e)
      with assms Some True have "r = Some e" "ss' = ss" "w' = w" by (simp_all add: Let_def)
      with Some True Inl show ?thesis by (intro failed [of s e])
    next
      case (Inr w1)
      with assms Some True
      have "remove_sessions env rest (AList.delete sid ss, w1) = (r, ss', w')"
        by (simp add: Let_def)
      with Some True Inr show ?thesis by (intro removed [of s w1])
    qed
  qed
qed

lemma remove_sessions_shrinks:
  "remove_sessions env ids (ss, w) = (r, ss', w') \<Longrightarrow>
   set (dirs w') \<subseteq> set (dirs w) \<and> set (zips w') \<subseteq> set (zips w)
   \<and> (\<forall>k v. map_of ss' k = Some v \<longrightarrow> map_of ss k = Some v)"
proof (induction ids arbitrary: ss w)
  case Nil
  then show ?case by simp
next
  case (Cons sid rest)
  from Cons.prems show ?case
  proof (cases rule: remove_sessions_step)
    case gone
    from Cons.IH [OF gone(2)] show ?thesis .
  next
    case (failed s e)
    then show ?thesis by simp
  next
    case (removed s w1)
    have d: "map_of (AList.delete sid ss) k = Some v \<longrightarrow> map_of ss k = Some v" for k v
      by (simp add: delete_conv')
    from Cons.IH [OF removed(4)] rmtree_shrinks [OF removed(3)] d
    show ?thesis by blast
  next
    case (absent s)
    have d: "map_of (AList.delete sid ss) k = Some v \<longrightarrow> map_of ss k = Some v" for k v
      by (simp add: delete_conv')
    from Cons.IH [OF absent(3)] d show ?thesis by blast
  qed
qed

lemma remove_sessions_kept:
  "remove_sessions env ids (ss, w) = (r, ss', w') \<Longrightarrow> sid \<notin> set ids \<Longrightarrow>
   map_of ss' sid = map_of ss sid"
proof (induction ids arbitrary: ss w)
  case Nil
  then show ?case by simp
next
  case (Cons k rest)
  from Cons.prems(2) have ne: "sid \<noteq> k" and nin: "sid \<notin> set rest" by auto
  from Cons.prems(1) show ?case
  proof (cases rule: remove_sessions_step)
    case gone
    from Cons.IH [OF gone(2) nin] show ?thesis .
  next
    case (failed s e)
    then show ?thesis by simp
  next
    case (removed s w1)
    from Cons.IH [OF removed(4) nin] ne show ?thesis by (simp add: delete_conv')
  next
    case (absent s)
    from Cons.IH [OF absent(3) nin] ne show ?thesis by (simp add: delete_conv')
  qed
qed

lemma remove_sessions_removed:
  "remove_sessions env ids (ss, w) = (None, ss', w') \<Longrightarrow> sid \<in> set ids \<Longrightarrow>
   map_of ss sid = Some s \<Longrightarrow>
   map_of ss' sid = None \<and> \<not> path_exists (path_join ''downloads'' (job_id s)) w'"
proof (induction ids arbitrary: ss w)
  case Nil
  then show ?case by simp
next
  case (Cons k rest)
  let ?jd = "path_join ''downloads'' (job_id s)"
  show ?case
  proof (cases "k = sid")
    case True
    from Cons.prems(1) [unfolded True] show ?thesis
    proof (cases rule: remove_sessions_step)
      case gone
      with Cons.prems(3) show ?thesis by simp
    next
      case (failed s0 e)
      then show ?thesis by simp
    next
      case (removed s0 w1)
      with Cons.prems(3) have s0: "s0 = s" by simp
      note sh = remove_sessions_shrinks [OF removed(4)]
      have "map_of ss' sid = None"
      proof (cases "map_of ss' sid")
        case None then show ?thesis .
      next
        case (Some v)
        with sh have "map_of (AList.delete sid ss) sid = Some v" by blast
        then show ?thesis by (simp add: delete_conv')
      qed
      moreover have "\<not> path_exists ?jd w'"
        using rmtree_removes [OF removed(3)] sh s0 by (auto simp: path_exists_def)
      ultimately show ?thesis by simp
    next
      case (absent s0)
      with Cons.prems(3) have s0: "s0 = s" by simp
      note sh = remove_sessions_shrinks [OF absent(3)]
      have "map_of ss' sid = None"
      proof (cases "map_of ss' sid")
        case None then show ?thesis .
      next
        case (Some v)
        with sh have "map_of (AList.delete sid ss) sid = Some v" by blast
        then show ?thesis by (simp add: delete_conv')
      qed
      moreover have "\<not> path_exists ?jd w'"
        using absent(2) sh s0 by (auto simp: path_exists_def)
      ultimately show ?thesis by simp
    qed
  next
    case False
    with Cons.prems(2) have mem: "sid \<in> set rest" by simp
    from Cons.prems(1) show ?thesis
    proof (cases rule: remove_sessions_step)
      case gone
      from Cons.IH [OF gone(2) mem Cons.prems(3)] show ?thesis .
    next
      case (failed s0 e)
      then show ?thesis by simp
    next
      case (removed s0 w1)
      have "map_of (AList.delete k ss) sid = Some s"
        using Cons.prems(3) False by (simp add: delete_conv')
      from Cons.IH [OF removed(4) mem this] show ?thesis .
    next
      case (absent s0)
      have "map_of (AList.delete k ss) sid = Some s"
        using Cons.prems(3) False by (simp add: delete_conv')
      from Cons.IH [OF absent(3) mem this] show ?thesis .
    qed
  qed
qed

lemma remove_sessions_untouched:
  "remove_sessions env ids (ss, w) = (r, ss', w') \<Longrightarrow>
   \<forall>k \<in> set ids. \<forall>x. map_of ss k = Some x \<longrightarrow>
      \<not> is_under (rstrip_sep (path_join ''downloads'' (job_id x))) d \<Longrightarrow>
   (d \<in> set (dirs w) \<longrightarrow> d \<in> set (dirs w'))
   \<and> ((d, z) \<in> set (zips w) \<longrightarrow> (d, z) \<in> set (zips w'))"
proof (induction ids arbitrary: ss w)
  case Nil
  then show ?case by simp
next
  case (Cons k rest)
  have rest: "\<forall>k \<in> set rest. \<forall>x. map_of (AList.delete j ss) k = Some x \<longrightarrow>
      \<not> is_under (rstrip_sep (path_join ''downloads'' (job_id x))) d" for j
    using Cons.prems(2) by (auto simp: delete_conv' split: if_splits)
  from Cons.prems(1) show ?case
  proof (cases rule: remove_sessions_step)
    case gone
    from Cons.prems(2) have "\<forall>k \<in> set rest. \<forall>x. map_of ss k = Some x \<longrightarrow>
      \<not> is_under (rstrip_sep (path_join ''downloads'' (job_id x))) d" by simp
    from Cons.IH [OF gone(2) this] show ?thesis .
  next
    case (failed s e)
    then show ?thesis by simp
  next
    case (removed s w1)
    from Cons.prems(2) removed(1)
    have nu: "\<not> is_under (rstrip_sep (path_join ''downloads'' (job_id s))) d" by simp
    from rmtree_effect [OF removed(3)] nu
    have "(d \<in> set (dirs w) \<longrightarrow> d \<in> set (dirs w1))
        \<and> ((d, z) \<in> set (zips w) \<longrightarrow> (d, z) \<in> set (zips w1))" by simp
    with Cons.IH [OF removed(4) rest] show ?thesis by blast
  next
    case (absent s)
    from Cons.IH [OF absent(3) rest] show ?thesis .
  qed
qed

lemma expired_sessions_iff:
  "sid \<in> set (expired_sessions now ss) \<longleftrightarrow>
     (\<exists>s. (sid, s) \<in> set ss \<and> now - created_at s > timedelta_hours 4)"
  by (force simp: expired_sessions_def)

lemma cleanup_tick_removed:
  assumes "cleanup_tick env now (sessions, w) = (None, sessions', w')"
    and m: "map_of sessions sid = Some s" and old: "now - created_at s > timedelta_hours 4"
  shows "map_of sessions' sid = None \<and> \<not> path_exists (path_join ''downloads'' (job_id s)) w'"
proof -
  from assms(1) have run: "remove_sessions env (expired_sessions now sessions) (sessions, w)
      = (None, sessions', w')" by (simp add: cleanup_tick_def)
  from m have "(sid, s) \<in> set sessions" by (rule map_of_SomeD)
  with old have mem: "sid \<in> set (expired_sessions now sessions)"
    by (auto simp: expired_sessions_iff)
  from remove_sessions_removed [OF run mem m] show ?thesis .
qed

lemma cleanup_tick_kept:
  assumes "cleanup_tick env now (sessions, w) = (r, sessions', w')"
    and d: "distinct (map fst sessions)"
    and m: "map_of sessions sid = Some s" and young: "now - created_at s \<le> timedelta_hours 4"
  shows "map_of sessions' sid = Some s"
proof -
  from assms(1) have run: "remove_sessions env (expired_sessions now sessions) (sessions, w)
      = (r, sessions', w')" by (simp add: cleanup_tick_def)
  have "sid \<notin> set (expired_sessions now sessions)"
  proof
    assume "sid \<in> set (expired_sessions now sessions)"
    then obtain x where x: "(sid, x) \<in> set sessions" "now - created_at x > timedelta_hours 4"
      by (auto simp: expired_sessions_iff)
    from map_of_is_SomeI [OF d x(1)] m have "x = s" by simp
    with young x(2) show False by simp
  qed
  from remove_sessions_kept [OF run this] m show ?thesis by simp
qed

lemma cleanup_tick_untouched:
  assumes "cleanup_tick env now (sessions, w) = (r, sessions', w')"
    and d: "distinct (map fst sessions)"
    and n: "\<forall>k x. map_of sessions k = Some x \<and> now - created_at x > timedelta_hours 4
             \<longrightarrow> \<not> is_under (rstrip_sep (path_join ''downloads'' (job_id x))) p"
  shows "(p \<in> set (dirs w) \<longrightarrow> p \<in> set (dirs w'))
        \<and> ((p, z) \<in> set (zips w) \<longrightarrow> (p, z) \<in> set (zips w'))"
proof -
  from assms(1) have run: "remove_sessions env (expired_sessions now sessions) (sessions, w)
      = (r, sessions', w')" by (simp add: cleanup_tick_def)
  have "\<forall>k \<in> set (expired_sessions now sessions). \<forall>x. map_of sessions k = Some x \<longrightarrow>
      \<not> is_under (rstrip_sep (path_join ''downloads'' (job_id x))) p"
  proof (intro ballI allI impI)
    fix k x
    assume k: "k \<in> set (expired_sessions now sessions)" and m: "map_of sessions k = Some x"
    from k obtain y where y: "(k, y) \<in> set sessions" "now - created_at y > timedelta_hours 4"
      by (auto simp: expired_sessions_iff)
    from map_of_is_SomeI [OF d y(1)] m have "x = y" by simp
    with n m y(2) show "\<not> is_under (rstrip_sep (path_join ''downloads'' (job_id x))) p"
      by blast
  qed
  from remove_sessions_untouched [OF run this, of z] show ?thesis .
qed

text \<open>
  Claim C8. The sweep sleeps \<open>cleanup_interval\<close> = 3600 seconds between ticks, and the
  age it compares with four hours is that of the session, counted from \<open>created_at\<close>,
  the time of the login that created it. At a tick that ends normally, every session
  created more than four hours before is gone from the registry and the directory of the
  job id it holds no longer exists, whatever the status of its job. A session created at
  most four hours before the tick (three hours, say) is in the registry unchanged,
  provided the registry holds each key once; and every directory and archive that is not
  at or below the job directory of a session older than four hours is still there.
\<close>

theorem retention_sweep_by_session:
  "cleanup_interval = 3600 \<and> timedelta_hours 4 = 4 * 3600 * 1000000
   \<and> (cleanup_tick env now (sessions, w) = (None, sessions', w')
       \<and> map_of sessions sid = Some s \<and> now - created_at s > timedelta_hours 4
      \<longrightarrow> map_of sessions' sid = None
        \<and> \<not> path_exists (path_join ''downloads'' (job_id s)) w')
   \<and> (cleanup_tick env now (sessions, w) = (r, sessions', w')
       \<and> distinct (map fst sessions)
       \<and> map_of sessions sid = Some s \<and> now - created_at s \<le> timedelta_hours 4
      \<longrightarrow> map_of sessions' sid = Some s)
   \<and> (cleanup_tick env now (sessions, w) = (r, sessions', w')
       \<and> distinct (map fst sessions)
       \<and> (\<forall>k x. map_of sessions k = Some x \<and> now - created_at x > timedelta_hours 4
             \<longrightarrow> \<not> is_under (rstrip_sep (path_join ''downloads'' (job_id x))) p)
      \<longrightarrow> (p \<in> set (dirs w) \<longrightarrow> p \<in> set (dirs w'))
        \<and> ((p, z) \<in> set (zips w) \<longrightarrow> (p, z) \<in> set (zips w')))"
proof -
  have a: "cleanup_interval = 3600" by (simp add: cleanup_interval_def)
  have b: "timedelta_hours 4 = 4 * 3600 * 1000000" by (simp add: timedelta_hours_def)
  have c: "cleanup_tick env now (sessions, w) = (None, sessions', w')
       \<and> map_of sessions sid = Some s \<and> now - created_at s > timedelta_hours 4
      \<longrightarrow> map_of sessions' sid = None
        \<and> \<not> path_exists (path_join ''downloads'' (job_id s)) w'"
    using cleanup_tick_removed [of env now sessions w sessions' w' sid s] by blast
  have d: "cleanup_tick env now (sessions, w) = (r, sessions', w')
       \<and> distinct (map fst sessions)
       \<and> map_of sessions sid = Some s \<and> now - created_at s \<le> timedelta_hours 4
      \<longrightarrow> map_of sessions' sid = Some s"
    using cleanup_tick_kept [of env now sessions w r sessions' w' sid s] by blast
  have e: "cleanup_tick env now (sessions, w) = (r, sessions', w')
       \<and> distinct (map fst sessions)
       \<and> (\<forall>k x. map_of sessions k = Some x \<and> now - created_at x > timedelta_hours 4
             \<longrightarrow> \<not> is_under (rstrip_sep (path_join ''downloads'' (job_id x))) p)
      \<longrightarrow> (p \<in> set (dirs w) \<longrightarrow> p \<in> set (dirs w'))
        \<and> ((p, z) \<in> set (zips w) \<longrightarrow> (p, z) \<in> set (zips w'))"
    using cleanup_tick_untouched [of env now sessions w r sessions' w' p z] by blast
  from a b c d e show ?thesis by (intro conjI)
qed

section \<open>Running the sweep on the sample inputs\<close>

lemmas sweep_defs = cleanup_tick_def expired_sessions_def timedelta_hours_def rmtree_def
  path_exists_def rstrip_sep_def is_under_def

lemmas run_defs = process_download_def list_all_files_def no_token_def items_of_def
  download_to_zips_def finally_close_def folder_type_def on_error_def
  start_download_def auth_callback_def start_login_def new_session_def run_events_def

lemma makedirs_job:
  "makedirs_raises env ''downloads/job'' = None \<Longrightarrow>
   makedirs env ''downloads/job'' w =
     Inr (w\<lparr>dirs := fold List.insert [''downloads'', ''downloads/job''] (dirs w)\<rparr>)"
  by (simp add: makedirs_def parents_def rstrip_sep_def)

lemma late_job_state:
  "run_events sample_env late_job_timeline ([], empty_world) =
  ([(''sid'',
    \<lparr>token = Some \<lparr>expired = False\<rparr>, state = ''st'', job_id = ''job'',
       created_at = 0,
       progress =
         \<lparr>total_files = 3, processed_files = 3, current_file = ''c'',
            status = Completed, zip_files = [''drive_backup_001.zip''],
            error = []\<rparr>\<rparr>)],
  \<lparr>calls = [list_request None, GetMedia ''a'', GetMedia ''c''],
     dirs = [''downloads/job'', ''downloads''],
     zips =
       [(''downloads/job/drive_backup_001.zip'',
         \<lparr>entries = [(''a'', [1, 2, 3])], fp_open = False\<rparr>)]\<rparr>)"
  by (simp add: late_job_timeline_def run_defs sample_defs fetch_defs writer_defs name_defs
      makedirs_job format_03d_1)


lemma late_job_tick:
  "cleanup_tick sample_env (timedelta_hours 5)
     (run_events sample_env late_job_timeline ([], empty_world)) =
   (None, [], \<lparr>calls = [list_request None, GetMedia ''a'', GetMedia ''c''],
               dirs = [''downloads''], zips = []\<rparr>)"
  unfolding late_job_state
  by (simp add: sweep_defs path_join_def sample_env_def quiet_env_def)

text \<open>
  A session logs in at time 0 and starts its job two hours later; the job runs to
  completion. At the tick at five hours the job was created three hours before, and the
  tick removes the session and the job's directory.
\<close>

theorem retention_counts_from_login:
  "job_created (late_job_timeline @ [Tick (timedelta_hours 5)]) ''job'' = Some (timedelta_hours 2)
   \<and> timedelta_hours 5 - timedelta_hours 2 = timedelta_hours 3
   \<and> map_option job_id
       (map_of (fst (run_events sample_env late_job_timeline ([], empty_world))) ''sid'')
       = Some ''job''
   \<and> path_exists ''downloads/job'' (snd (run_events sample_env late_job_timeline ([], empty_world)))
   \<and> map_of (fst (run_events sample_env (late_job_timeline @ [Tick (timedelta_hours 5)])
                ([], empty_world))) ''sid'' = None
   \<and> \<not> path_exists ''downloads/job''
         (snd (run_events sample_env (late_job_timeline @ [Tick (timedelta_hours 5)])
                ([], empty_world)))"
proof -
  let ?t5 = "timedelta_hours 5"
  have a: "job_created (late_job_timeline @ [Tick ?t5]) ''job'' = Some (timedelta_hours 2)"
    by (simp add: late_job_timeline_def)
  have b: "timedelta_hours 5 - timedelta_hours 2 = timedelta_hours 3"
    by (simp add: timedelta_hours_def)
  have c: "map_option job_id
       (map_of (fst (run_events sample_env late_job_timeline ([], empty_world))) ''sid'')
       = Some ''job''"
    and d: "path_exists ''downloads/job''
       (snd (run_events sample_env late_job_timeline ([], empty_world)))"
    unfolding late_job_state by (simp_all add: path_exists_def rstrip_sep_def)
  have r: "run_events sample_env (late_job_timeline @ [Tick ?t5]) ([], empty_world)
      = snd (cleanup_tick sample_env ?t5
               (run_events sample_env late_job_timeline ([], empty_world)))"
    by (cases "run_events sample_env late_job_timeline ([], empty_world)")
       (simp add: run_events_def)
  have e: "map_of (fst (run_events sample_env (late_job_timeline @ [Tick ?t5])
                ([], empty_world))) ''sid'' = None"
    and f: "\<not> path_exists ''downloads/job''
         (snd (run_events sample_env (late_job_timeline @ [Tick ?t5]) ([], empty_world)))"
    unfolding r late_job_tick by (simp_all add: path_exists_def rstrip_sep_def)
  from a b c d e f show ?thesis by (intro conjI)
qed

text \<open>
  The tick at five hours on \<open>two_sessions\<close>: the session of five hours, whose job is
  still running, goes with its directory; the session of three hours and its volume stay.
\<close>

theorem retention_sweep_by_session_witness:
  "map_of (fst (snd (cleanup_tick sample_env (timedelta_hours 5) (two_sessions, two_jobs_world))))
       ''old'' = None
   \<and> \<not> path_exists ''downloads/job1''
         (snd (snd (cleanup_tick sample_env (timedelta_hours 5) (two_sessions, two_jobs_world))))
   \<and> map_of (fst (snd (cleanup_tick sample_env (timedelta_hours 5) (two_sessions, two_jobs_world))))
       ''new'' = map_of two_sessions ''new''
   \<and> ''downloads/job2''
       \<in> set (dirs (snd (snd (cleanup_tick sample_env (timedelta_hours 5)
                                 (two_sessions, two_jobs_world)))))
   \<and> (''downloads/job2/drive_backup_001.zip'', \<lparr>entries = [], fp_open = False\<rparr>)
       \<in> set (zips (snd (snd (cleanup_tick sample_env (timedelta_hours 5)
                                 (two_sessions, two_jobs_world)))))"
proof -
  let ?t5 = "timedelta_hours 5"
  let ?old = "(new_session 0)\<lparr>token := Some \<lparr>expired = False\<rparr>, job_id := ''job1'',
                 progress := sample_progress\<rparr>"
  let ?new = "(new_session (timedelta_hours 2))
                 \<lparr>token := Some \<lparr>expired = False\<rparr>, job_id := ''job2'',
                  progress := sample_progress\<lparr>status := Completed\<rparr>\<rparr>"
  have "\<exists>ss' w'. cleanup_tick sample_env ?t5 (two_sessions, two_jobs_world) = (None, ss', w')"
    by (simp add: sweep_defs path_join_def sample_env_def quiet_env_def two_sessions_def
        two_jobs_world_def new_session_def)
  then obtain ss' w' where
    run: "cleanup_tick sample_env ?t5 (two_sessions, two_jobs_world) = (None, ss', w')"
    by blast
  have dist: "distinct (map fst two_sessions)" by (simp add: two_sessions_def)
  have mo: "map_of two_sessions ''old'' = Some ?old \<and> ?t5 - created_at ?old > timedelta_hours 4"
    by (simp add: two_sessions_def new_session_def timedelta_hours_def)
  have mn: "map_of two_sessions ''new'' = Some ?new \<and> ?t5 - created_at ?new \<le> timedelta_hours 4"
    by (simp add: two_sessions_def new_session_def timedelta_hours_def)
  have nu: "\<forall>k x. map_of two_sessions k = Some x \<and> ?t5 - created_at x > timedelta_hours 4
      \<longrightarrow> \<not> is_under (rstrip_sep (path_join ''downloads'' (job_id x))) ''downloads/job2''"
    by (auto simp: two_sessions_def new_session_def timedelta_hours_def path_join_def
        rstrip_sep_def is_under_def split: if_splits)
  have nz: "\<forall>k x. map_of two_sessions k = Some x \<and> ?t5 - created_at x > timedelta_hours 4
      \<longrightarrow> \<not> is_under (rstrip_sep (path_join ''downloads'' (job_id x)))
            ''downloads/job2/drive_backup_001.zip''"
    by (auto simp: two_sessions_def new_session_def timedelta_hours_def path_join_def
        rstrip_sep_def is_under_def split: if_splits)
  note t1 = retention_sweep_by_session
    [where env = sample_env and now = ?t5 and sessions = two_sessions and w = two_jobs_world
       and sessions' = ss' and w' = w' and r = None and sid = "''old''" and s = ?old
       and p = "''downloads/job2''"]
  note t2 = retention_sweep_by_session
    [where env = sample_env and now = ?t5 and sessions = two_sessions and w = two_jobs_world
       and sessions' = ss' and w' = w' and r = None and sid = "''new''" and s = ?new
       and p = "''downloads/job2/drive_backup_001.zip''"
       and z = "\<lparr>entries = [], fp_open = False\<rparr>"]
  from t1 run mo have a: "map_of ss' ''old'' = None
      \<and> \<not> path_exists (path_join ''downloads'' (job_id ?old)) w'"
    by blast
  from t2 run dist mn have b: "map_of ss' ''new'' = Some ?new" by blast
  have "''downloads/job2'' \<in> set (dirs two_jobs_world) \<longrightarrow> ''downloads/job2'' \<in> set (dirs w')"
    using t1 run dist nu by blast
  then have c: "''downloads/job2'' \<in> set (dirs w')" by (simp add: two_jobs_world_def)
  have "(''downloads/job2/drive_backup_001.zip'', \<lparr>entries = [], fp_open = False\<rparr>)
        \<in> set (zips two_jobs_world)
      \<longrightarrow> (''downloads/job2/drive_backup_001.zip'', \<lparr>entries = [], fp_open = False\<rparr>)
        \<in> set (zips w')"
    using t2 run dist nz by blast
  then have d: "(''downloads/job2/drive_backup_001.zip'', \<lparr>entries = [], fp_open = False\<rparr>)
        \<in> set (zips w')" by (simp add: two_jobs_world_def)
  from a have a': "map_of ss' ''old'' = None" and a'': "\<not> path_exists ''downloads/job1'' w'"
    by (simp_all add: path_join_def)
  show ?thesis unfolding run fst_conv snd_conv
    using a' a'' b c d mn by (intro conjI) simp_all
qed

end
